theory Spec2Isabelle
  imports Main
begin

section \<open>The time library as the program uses it\<close>

text \<open>
  The program works with Go's \<^verbatim>\<open>time.Time\<close> and \<^verbatim>\<open>time.Duration\<close>. An instant is
  represented by its number of nanoseconds since the Unix epoch together with the
  location it is displayed in; a location is a fixed offset east of UTC, in seconds.
  Comparisons (\<^verbatim>\<open>After\<close>, \<^verbatim>\<open>Before\<close>) look at the instant only, the calendar accessors
  (\<^verbatim>\<open>Year\<close>, \<^verbatim>\<open>Month\<close>, \<^verbatim>\<open>Day\<close>) at the instant in its location. The range of instants
  is not bounded here; durations are nanosecond counts and \<^verbatim>\<open>Sub\<close> saturates at the
  bounds of a signed 64-bit count, as the library does. A zone whose offset changes in
  the course of the year is not represented: the one offset of a location stands for the
  offset in force at the instant that \<^verbatim>\<open>time.Date\<close> returns, and no hypothesis below
  asks an instant to carry the offset of the local zone.
\<close>

type_synonym Duration = int

definition Nanosecond :: Duration where "Nanosecond = 1"
definition Second :: Duration where "Second = 1000000000 * Nanosecond"
definition Minute :: Duration where "Minute = 60 * Second"
definition Hour :: Duration where "Hour = 60 * Minute"

definition minDuration :: Duration where "minDuration = - (2 ^ 63)"
definition maxDuration :: Duration where "maxDuration = 2 ^ 63 - 1"

type_synonym Location = int

record Time =
  ns :: int
  zone :: Location

definition Add :: "Time \<Rightarrow> Duration \<Rightarrow> Time" where
  "Add t d = t\<lparr>ns := ns t + d\<rparr>"

definition After :: "Time \<Rightarrow> Time \<Rightarrow> bool" where
  "After t u = (ns t > ns u)"

definition Before :: "Time \<Rightarrow> Time \<Rightarrow> bool" where
  "Before t u = (ns t < ns u)"

definition Sub :: "Time \<Rightarrow> Time \<Rightarrow> Duration" where
  "Sub t u =
     (let d = ns t - ns u in
      if d < minDuration then minDuration
      else if d > maxDuration then maxDuration
      else d)"

definition Unix :: "Time \<Rightarrow> int" where
  "Unix t = ns t div 1000000000"

subsection \<open>The proleptic Gregorian calendar\<close>

text \<open>Days are counted from 1 January of year 1; 1 January 1970 is day 719162.\<close>

definition isLeap :: "int \<Rightarrow> bool" where
  "isLeap year = (year mod 4 = 0 \<and> (year mod 100 \<noteq> 0 \<or> year mod 400 = 0))"

definition daysBefore :: "int list" where
  "daysBefore = [0, 31, 59, 90, 120, 151, 181, 212, 243, 273, 304, 334, 365]"

definition daysSinceYear1 :: "int \<Rightarrow> int" where
  "daysSinceYear1 year =
     (let y = year - 1 in 365 * y + y div 4 - y div 100 + y div 400)"

definition unixEpochDay :: int where
  "unixEpochDay = 719162"

text \<open>
  The year and the day within the year of a day number: 400-year cycles, then 100-year
  cycles (the last one is a day longer, so a quotient of 4 is cut to 3), then 4-year
  cycles, then years (again cut to 3).
\<close>

definition absDate :: "int \<Rightarrow> int \<times> int" where
  "absDate days =
     (let n400 = days div 146097;
          d1 = days - 146097 * n400;
          n100 = d1 div 36524;
          n100' = n100 - n100 div 4;
          d2 = d1 - 36524 * n100';
          n4 = d2 div 1461;
          d3 = d2 - 1461 * n4;
          n1 = d3 div 365;
          n1' = n1 - n1 div 4;
          d4 = d3 - 365 * n1'
      in (400 * n400 + 100 * n100' + 4 * n4 + n1' + 1, d4))"

text \<open>Month and day of the month of a day \<open>0 .. 364\<close> of a year without leap day.\<close>

definition monthDay :: "int \<Rightarrow> int \<times> int" where
  "monthDay day =
     (let month = day div 31;
          end = daysBefore ! nat (month + 1)
      in if day \<ge> end then (month + 2, day - end + 1)
         else (month + 1, day - daysBefore ! nat month + 1))"

definition daysToDate :: "int \<Rightarrow> int \<times> int \<times> int" where
  "daysToDate days =
     (case absDate days of (year, yday) \<Rightarrow>
        if isLeap year \<and> yday = 31 + 29 - 1 then (year, 2, 29)
        else
          (case monthDay (if isLeap year \<and> yday > 31 + 29 - 1 then yday - 1 else yday) of
             (month, day) \<Rightarrow> (year, month, day)))"

definition civil :: "Time \<Rightarrow> int \<times> int \<times> int" where
  "civil t = daysToDate ((Unix t + zone t) div 86400 + unixEpochDay)"

definition Year :: "Time \<Rightarrow> int" where
  "Year t = fst (civil t)"

definition Month :: "Time \<Rightarrow> int" where
  "Month t = fst (snd (civil t))"

definition Day :: "Time \<Rightarrow> int" where
  "Day t = snd (snd (civil t))"

text \<open>
  \<^verbatim>\<open>time.Date\<close> accepts values outside their usual ranges and normalises them:
  \<^verbatim>\<open>norm hi lo base\<close> carries the excess of \<open>lo\<close> into \<open>hi\<close>.
\<close>

definition norm :: "int \<Rightarrow> int \<Rightarrow> int \<Rightarrow> int \<times> int" where
  "norm hi lo base = (hi + lo div base, lo mod base)"

definition time_Date :: "int \<Rightarrow> int \<Rightarrow> int \<Rightarrow> int \<Rightarrow> int \<Rightarrow> int \<Rightarrow> int \<Rightarrow> Location \<Rightarrow> Time" where
  "time_Date year month day hour minute sec nsec l =
     (case norm year (month - 1) 12 of (year1, m) \<Rightarrow>
      case norm sec nsec 1000000000 of (sec1, nsec1) \<Rightarrow>
      case norm minute sec1 60 of (min1, sec2) \<Rightarrow>
      case norm hour min1 60 of (hour1, min2) \<Rightarrow>
      case norm day hour1 24 of (day1, hour2) \<Rightarrow>
        (let d = daysSinceYear1 year1 + daysBefore ! nat m
                 + (if isLeap year1 \<and> m + 1 \<ge> 3 then 1 else 0)
                 + (day1 - 1);
             unix = (d - unixEpochDay) * 86400 + hour2 * 3600 + min2 * 60 + sec2 - l
         in \<lparr>ns = unix * 1000000000 + nsec1, zone = l\<rparr>))"

section \<open>Daily intervals\<close>

record timeInterval =
  From :: Time
  To :: Time

function dailyLoop :: "Time \<Rightarrow> Time \<Rightarrow> Time \<Rightarrow> timeInterval list \<Rightarrow> timeInterval list" where
  "dailyLoop startDay endDay to res =
     (if Before startDay to
      then dailyLoop (Add startDay (24 * Hour)) (Add endDay (24 * Hour)) to
             (res @ [\<lparr>From = startDay, To = endDay\<rparr>])
      else res)"
  by pat_completeness auto
termination
  by (relation "measure (\<lambda>(startDay, endDay, to, res). nat (ns to - ns startDay))")
     (auto simp: Before_def Add_def Hour_def Minute_def Second_def Nanosecond_def)

definition generateDailyIntervals :: "Location \<Rightarrow> Time \<Rightarrow> Time \<Rightarrow> timeInterval list" where
  "generateDailyIntervals local from to =
     (let startDay = time_Date (Year from) (Month from) (Day from) 0 0 0 0 local;
          endDay = Add startDay (24 * Hour)
      in dailyLoop startDay endDay to [])"


section \<open>Builds and the collaborators of the lister\<close>

record Pipeline =
  Name :: string

record Build =
  ID :: string
  Pipeline :: Pipeline
  Branch :: string
  ScheduledAt :: Time
  FinishedAt :: Time
  StartedAt :: Time
  CreatedAt :: Time

text \<open>
  A record of the remote service, as the client library delivers it: every field is a
  pointer and may be nil.
\<close>

record bkPipeline =
  bkName :: "string option"

record bkBuild =
  bkID :: "string option"
  bkPipeline :: "bkPipeline option"
  bkBranch :: "string option"
  bkCreatedAt :: "Time option"
  bkStartedAt :: "Time option"
  bkScheduledAt :: "Time option"
  bkFinishedAt :: "Time option"

record BuildsListOptions =
  Page :: int
  PerPage :: int
  CreatedFrom :: Time
  CreatedTo :: Time
  State :: "string list"

record Response =
  NextPage :: int

type_synonym error = string
type_synonym bytes = "nat list"

text \<open>
  Every call that leaves the program is recorded in a trace, in the order of the calls.
  The collaborators (the clock, the random source, the cache store, the remote service)
  answer as functions of the trace so far: they may hold state and change their answers
  over time, and a computation that makes no call leaves the trace as it was.
\<close>

datatype event =
    EvNow
  | EvIntn int
  | EvGet string
  | EvPut string bytes Duration
  | EvListByOrg string BuildsListOptions

type_synonym trace = "event list"

record Cache =
  Put :: "trace \<Rightarrow> string \<Rightarrow> bytes \<Rightarrow> Duration \<Rightarrow> error option"
  Get :: "trace \<Rightarrow> string \<Rightarrow> error + bytes"

record Client =
  ListByOrg :: "trace \<Rightarrow> string \<Rightarrow> BuildsListOptions
                 \<Rightarrow> bkBuild list \<times> Response option \<times> error option"

record NetworkBuildkite =
  Client :: Client
  Org :: string
  Cache :: Cache

text \<open>
  What the program takes from the Go runtime and its standard library: the local time zone,
  the wall clock, the global random source, and the JSON and gzip codecs.
\<close>

record runtime =
  Local :: Location
  clock :: "trace \<Rightarrow> Time"
  randSource :: "trace \<Rightarrow> nat"
  json_Marshal :: "Build list \<Rightarrow> error + bytes"
  json_Unmarshal :: "bytes \<Rightarrow> error + Build list"
  gzip_write :: "bytes \<Rightarrow> bytes"
  gzip_read :: "bytes \<Rightarrow> error + bytes"

text \<open>A call either panics or returns a value, with the trace extended by its calls.\<close>

datatype 'a outcome = Panics | Returns 'a trace

definition time_Now :: "runtime \<Rightarrow> trace \<Rightarrow> Time \<times> trace" where
  "time_Now rt tr = (clock rt tr, tr @ [EvNow])"

text \<open>\<^verbatim>\<open>rand.Intn n\<close>, for positive \<open>n\<close>: a number in \<open>[0, n)\<close>.\<close>

definition rand_Intn :: "runtime \<Rightarrow> int \<Rightarrow> trace \<Rightarrow> int \<times> trace" where
  "rand_Intn rt n tr = (int (randSource rt tr) mod n, tr @ [EvIntn n])"

definition itemsPerPage :: int where
  "itemsPerPage = 100"

section \<open>The program\<close>

text \<open>Dereferencing a nil pointer panics: \<open>None\<close>.\<close>

definition newBuildFromBuildkite :: "bkBuild \<Rightarrow> Build option" where
  "newBuildFromBuildkite b =
     (case bkID b of None \<Rightarrow> None | Some ident \<Rightarrow>
     (case bkPipeline b of None \<Rightarrow> None | Some p \<Rightarrow>
     (case bkName p of None \<Rightarrow> None | Some name \<Rightarrow>
     (case bkBranch b of None \<Rightarrow> None | Some branch \<Rightarrow>
     (case bkCreatedAt b of None \<Rightarrow> None | Some created \<Rightarrow>
     (case bkStartedAt b of None \<Rightarrow> None | Some started \<Rightarrow>
     (case bkScheduledAt b of None \<Rightarrow> None | Some scheduled \<Rightarrow>
     (case bkFinishedAt b of None \<Rightarrow> None | Some finished \<Rightarrow>
        Some \<lparr>ID = ident, Pipeline = \<lparr>Name = name\<rparr>, Branch = branch,
              ScheduledAt = scheduled, FinishedAt = finished,
              StartedAt = started, CreatedAt = created\<rparr>))))))))"

subsection \<open>The TTL policy\<close>

definition cacheTTL :: "runtime \<Rightarrow> timeInterval \<Rightarrow> trace \<Rightarrow> Duration \<times> trace" where
  "cacheTTL rt interval tr =
     (case time_Now rt tr of (now, tr1) \<Rightarrow>
        if Sub now (To interval) > 12 * Hour
        then (case rand_Intn rt (7 * 24) tr1 of (r, tr2) \<Rightarrow>
                (let spread = r * Hour in (60 * 24 * Hour + spread, tr2)))
        else (10 * Minute, tr1))"

subsection \<open>The remote query\<close>

fun convertBuilds :: "bkBuild list \<Rightarrow> Build list \<Rightarrow> Build list option" where
  "convertBuilds [] result = Some result"
| "convertBuilds (b # bbuilds) result =
     (case newBuildFromBuildkite b of
        None \<Rightarrow> None
      | Some b' \<Rightarrow> convertBuilds bbuilds (result @ [b']))"

definition query :: "NetworkBuildkite \<Rightarrow> string \<Rightarrow> BuildsListOptions \<Rightarrow> trace
    \<Rightarrow> (Build list \<times> Response option \<times> error option) outcome" where
  "query b org opts tr =
     (case ListByOrg (Client b) tr org opts of (bbuilds, resp, err) \<Rightarrow>
        (let tr1 = tr @ [EvListByOrg org opts] in
         if err \<noteq> None then Returns ([], resp, err) tr1
         else (case convertBuilds bbuilds [] of
                 None \<Rightarrow> Panics
               | Some result \<Rightarrow> Returns (result, resp, err) tr1)))"

text \<open>
  The pagination loop of \<^verbatim>\<open>listBuildsBetween\<close>. It has no bound of its own: it runs for
  as long as the service names a next page, so it is a partial function, and \<open>None\<close>
  stands for a loop that never returns. \<open>Inl err\<close> is the early return on an error of
  the service, \<open>Inr result\<close> the accumulated builds at the \<^verbatim>\<open>break\<close>.
\<close>

partial_function (option) pageLoop :: "NetworkBuildkite \<Rightarrow> BuildsListOptions \<Rightarrow> Build list
    \<Rightarrow> trace \<Rightarrow> (error + Build list) outcome option" where
  "pageLoop b opts result tr =
     (case query b (Org b) opts tr of
        Panics \<Rightarrow> Some Panics
      | Returns (builds, resp, err) tr1 \<Rightarrow>
          (case err of
             Some e \<Rightarrow> Some (Returns (Inl e) tr1)
           | None \<Rightarrow>
               (case resp of
                  None \<Rightarrow> Some Panics
                | Some r \<Rightarrow>
                    if NextPage r \<le> 0 then Some (Returns (Inr (result @ builds)) tr1)
                    else pageLoop b (opts\<lparr>Page := NextPage r\<rparr>) (result @ builds) tr1)))"

subsection \<open>The cache\<close>

text \<open>Writing to a buffer in memory does not fail; reading a gzip stream may, and panics.\<close>

definition compress :: "runtime \<Rightarrow> bytes \<Rightarrow> bytes" where
  "compress rt b = gzip_write rt b"

definition decompress :: "runtime \<Rightarrow> bytes \<Rightarrow> bytes option" where
  "decompress rt b = (case gzip_read rt b of Inl e \<Rightarrow> None | Inr out \<Rightarrow> Some out)"

definition populateCache :: "NetworkBuildkite \<Rightarrow> runtime \<Rightarrow> string \<Rightarrow> Build list \<Rightarrow> Duration
    \<Rightarrow> trace \<Rightarrow> (error option) outcome" where
  "populateCache b rt key builds ttl tr =
     (case json_Marshal rt builds of
        Inl e \<Rightarrow> Panics
      | Inr s \<Rightarrow>
          (let s1 = compress rt s
           in Returns (Put (Cache b) tr key s1 ttl) (tr @ [EvPut key s1 ttl])))"

definition readFromCache :: "NetworkBuildkite \<Rightarrow> runtime \<Rightarrow> string \<Rightarrow> trace
    \<Rightarrow> (Build list \<times> error option) outcome" where
  "readFromCache b rt key tr =
     (case Get (Cache b) tr key of
        Inl e \<Rightarrow> Returns ([], Some e) (tr @ [EvGet key])
      | Inr s \<Rightarrow>
          (case decompress rt s of
             None \<Rightarrow> Panics
           | Some s1 \<Rightarrow>
               (case json_Unmarshal rt s1 of
                  Inl e \<Rightarrow> Panics
                | Inr res \<Rightarrow> Returns (res, None) (tr @ [EvGet key]))))"

subsection \<open>The bucket cache gateway\<close>

text \<open>The decimal form of an integer, as \<^verbatim>\<open>%d\<close> prints it.\<close>

function digits :: "int \<Rightarrow> string" where
  "digits n =
     (if n < 10 then [''0123456789'' ! nat n]
      else digits (n div 10) @ [''0123456789'' ! nat (n mod 10)])"
  by pat_completeness auto
termination
  by (relation "measure nat") auto

declare digits.simps [simp del]

definition showInt :: "int \<Rightarrow> string" where
  "showInt i = (if i < 0 then CHR ''-'' # digits (- i) else digits i)"

definition cacheKey :: "timeInterval \<Rightarrow> string" where
  "cacheKey interval = showInt (Unix (From interval)) @ ''-'' @ showInt (Unix (To interval))"

definition listOptions :: "timeInterval \<Rightarrow> BuildsListOptions" where
  "listOptions interval =
     \<lparr>Page = 1, PerPage = itemsPerPage,
      CreatedFrom = From interval, CreatedTo = To interval,
      State = [''passed'']\<rparr>"

definition listBuildsBetween :: "NetworkBuildkite \<Rightarrow> runtime \<Rightarrow> timeInterval \<Rightarrow> Duration
    \<Rightarrow> trace \<Rightarrow> (Build list \<times> error option) outcome option" where
  "listBuildsBetween b rt interval ttl tr =
     (case readFromCache b rt (cacheKey interval) tr of
        Panics \<Rightarrow> Some Panics
      | Returns (cached, err) tr1 \<Rightarrow>
          if err = None then Some (Returns (cached, err) tr1)
          else
            (case pageLoop b (listOptions interval) [] tr1 of
               None \<Rightarrow> None
             | Some Panics \<Rightarrow> Some Panics
             | Some (Returns (Inl e) tr2) \<Rightarrow> Some (Returns ([], Some e) tr2)
             | Some (Returns (Inr result) tr2) \<Rightarrow>
                 (case populateCache b rt (cacheKey interval) result ttl tr2 of
                    Panics \<Rightarrow> Some Panics
                  | Returns ignored tr3 \<Rightarrow> Some (Returns (result, None) tr3))))"

subsection \<open>The build lister\<close>

text \<open>
  The caller's predicate is a method of an interface; \<open>None\<close> stands for a call of it
  that panics. The conjunction of the source evaluates from left to right and stops at
  the first false operand. The line that \<^verbatim>\<open>ListBuilds\<close> writes to the log for every
  interval has no part in the result and is left out.
\<close>

type_synonym BuildPredicate = "Build \<Rightarrow> bool option"

fun appendMatching :: "Time \<Rightarrow> Time \<Rightarrow> BuildPredicate \<Rightarrow> Build list \<Rightarrow> Build list
    \<Rightarrow> Build list option" where
  "appendMatching from to pred [] res = Some res"
| "appendMatching from to pred (b # bs) res =
     (if After (CreatedAt b) from then
        if Before (CreatedAt b) to then
          (case pred b of
             None \<Rightarrow> None
           | Some True \<Rightarrow> appendMatching from to pred bs (res @ [b])
           | Some False \<Rightarrow> appendMatching from to pred bs res)
        else appendMatching from to pred bs res
      else appendMatching from to pred bs res)"

fun bucketLoop :: "NetworkBuildkite \<Rightarrow> runtime \<Rightarrow> Time \<Rightarrow> Time \<Rightarrow> BuildPredicate
    \<Rightarrow> timeInterval list \<Rightarrow> Build list \<Rightarrow> trace
    \<Rightarrow> (Build list \<times> error option) outcome option" where
  "bucketLoop b rt from to pred [] res tr = Some (Returns (res, None) tr)"
| "bucketLoop b rt from to pred (interval # intervals) res tr =
     (case cacheTTL rt interval tr of (ttl, tr1) \<Rightarrow>
        (case listBuildsBetween b rt interval ttl tr1 of
           None \<Rightarrow> None
         | Some Panics \<Rightarrow> Some Panics
         | Some (Returns (bs, err) tr2) \<Rightarrow>
             if err \<noteq> None then Some (Returns (res, err) tr2)
             else (case appendMatching from to pred bs res of
                     None \<Rightarrow> Some Panics
                   | Some res1 \<Rightarrow> bucketLoop b rt from to pred intervals res1 tr2)))"

definition ListBuilds :: "NetworkBuildkite \<Rightarrow> runtime \<Rightarrow> Time \<Rightarrow> BuildPredicate \<Rightarrow> trace
    \<Rightarrow> (Build list \<times> error option) outcome option" where
  "ListBuilds b rt from pred tr =
     (case time_Now rt tr of (to, tr0) \<Rightarrow>
        bucketLoop b rt from to pred (generateDailyIntervals (Local rt) from to) [] tr0)"

definition dayInterval :: "Time \<Rightarrow> Time \<Rightarrow> nat \<Rightarrow> timeInterval" where
  "dayInterval sd ed k = \<lparr>From = Add sd (int k * (24 * Hour)), To = Add ed (int k * (24 * Hour))\<rparr>"

definition dayCount :: "Time \<Rightarrow> Time \<Rightarrow> nat" where
  "dayCount sd to = nat ((ns to - ns sd + 24 * Hour - 1) div (24 * Hour))"

definition localMidnight :: "Location \<Rightarrow> Time \<Rightarrow> Time" where
  "localMidnight local from = time_Date (Year from) (Month from) (Day from) 0 0 0 0 local"

definition t_2024_01_01 :: Time where
  "t_2024_01_01 = \<lparr>ns = 1704067200000000000, zone = 0\<rparr>"

text \<open>
  The pages that the pagination loop has consumed before it arrives at the request that
  ends it: the service answered each of them without error, all its records could be
  converted, it named a positive next page, and the request after it asks for that page.
  \<open>pagesVisited b opts tr run opts' tr'\<close> holds when, starting with the options \<open>opts\<close>
  at trace \<open>tr\<close>, the requests of \<open>run\<close>, listed with the builds they delivered, lead
  to the options \<open>opts'\<close> at trace \<open>tr'\<close>.
\<close>

inductive pagesVisited :: "NetworkBuildkite \<Rightarrow> BuildsListOptions \<Rightarrow> trace
    \<Rightarrow> (BuildsListOptions \<times> Build list) list \<Rightarrow> BuildsListOptions \<Rightarrow> trace \<Rightarrow> bool"
  for b :: NetworkBuildkite where
    pagesVisited_none: "pagesVisited b opts tr [] opts tr"
  | pagesVisited_next:
      "ListByOrg (Client b) tr (Org b) opts = (bbuilds, Some r, None)
       \<Longrightarrow> convertBuilds bbuilds [] = Some builds
       \<Longrightarrow> 0 < NextPage r
       \<Longrightarrow> pagesVisited b (opts\<lparr>Page := NextPage r\<rparr>) (tr @ [EvListByOrg (Org b) opts]) run opts' tr'
       \<Longrightarrow> pagesVisited b opts tr ((opts, builds) # run) opts' tr'"

text \<open>
  The outcome of the pagination loop at a request that ends it (a panic, an error of the
  service, or an answer without next page); \<open>None\<close> when the request does not end it.
\<close>

definition pageLoopEnd :: "NetworkBuildkite \<Rightarrow> BuildsListOptions \<Rightarrow> Build list \<Rightarrow> trace
    \<Rightarrow> (error + Build list) outcome option" where
  "pageLoopEnd b opts result tr =
     (case query b (Org b) opts tr of
        Panics \<Rightarrow> Some Panics
      | Returns (builds, resp, err) tr1 \<Rightarrow>
          (case err of
             Some e \<Rightarrow> Some (Returns (Inl e) tr1)
           | None \<Rightarrow>
               (case resp of
                  None \<Rightarrow> Some Panics
                | Some r \<Rightarrow>
                    if NextPage r \<le> 0 then Some (Returns (Inr (result @ builds)) tr1)
                    else None)))"

text \<open>
  The remote path of \<^verbatim>\<open>listBuildsBetween\<close>, as the specification describes it: fetch all
  pages for the interval; on an error of the service return it; otherwise serialise and
  compress the builds, write them to the cache and return them whatever the cache
  answers. Neither the cache's answer to the read before it nor its answer to the write
  occurs in it.
\<close>

definition remoteFetch :: "NetworkBuildkite \<Rightarrow> runtime \<Rightarrow> timeInterval \<Rightarrow> Duration
    \<Rightarrow> trace \<Rightarrow> (Build list \<times> error option) outcome option" where
  "remoteFetch b rt interval ttl tr =
     (case pageLoop b (listOptions interval) [] tr of
        None \<Rightarrow> None
      | Some Panics \<Rightarrow> Some Panics
      | Some (Returns (Inl err) tr2) \<Rightarrow> Some (Returns ([], Some err) tr2)
      | Some (Returns (Inr result) tr2) \<Rightarrow>
          (case json_Marshal rt result of
             Inl x \<Rightarrow> Some Panics
           | Inr s \<Rightarrow>
               Some (Returns (result, None)
                 (tr2 @ [EvPut (cacheKey interval) (gzip_write rt s) ttl]))))"

text \<open>The exact window of a listing: created strictly after \<open>from\<close> and strictly before \<open>to\<close>.\<close>

definition inWindow :: "Time \<Rightarrow> Time \<Rightarrow> Build \<Rightarrow> bool" where
  "inWindow from to b = (After (CreatedAt b) from \<and> Before (CreatedAt b) to)"

text \<open>
  The builds of the fetched daily buckets, before any filtering: the loop of the lister
  with every build of every bucket kept. It stops at the first bucket whose fetch returns
  an error, as the lister does.
\<close>

fun fetchedBuckets :: "NetworkBuildkite \<Rightarrow> runtime \<Rightarrow> timeInterval list \<Rightarrow> Build list \<Rightarrow> trace
    \<Rightarrow> (Build list \<times> error option) outcome option" where
  "fetchedBuckets b rt [] acc tr = Some (Returns (acc, None) tr)"
| "fetchedBuckets b rt (interval # intervals) acc tr =
     (case cacheTTL rt interval tr of (ttl, tr1) \<Rightarrow>
        (case listBuildsBetween b rt interval ttl tr1 of
           None \<Rightarrow> None
         | Some Panics \<Rightarrow> Some Panics
         | Some (Returns (bs, err) tr2) \<Rightarrow>
             if err \<noteq> None then Some (Returns (acc, err) tr2)
             else fetchedBuckets b rt intervals (acc @ bs) tr2))"

section \<open>Fixtures for the concrete instances\<close>

definition testTime :: "nat \<Rightarrow> Time" where
  "testTime n = Add t_2024_01_01 (int n * Hour)"

definition testBuild :: "nat \<Rightarrow> Build" where
  "testBuild n =
     \<lparr>ID = digits (int n), Pipeline = \<lparr>Name = ''deploy''\<rparr>, Branch = ''main'',
      ScheduledAt = testTime n, FinishedAt = testTime n,
      StartedAt = testTime n, CreatedAt = testTime n\<rparr>"

definition testRecord :: "nat \<Rightarrow> bkBuild" where
  "testRecord n =
     \<lparr>bkID = Some (digits (int n)), bkPipeline = Some \<lparr>bkName = Some ''deploy''\<rparr>,
      bkBranch = Some ''main'',
      bkCreatedAt = Some (testTime n), bkStartedAt = Some (testTime n),
      bkScheduledAt = Some (testTime n), bkFinishedAt = Some (testTime n)\<rparr>"

text \<open>
  A runtime whose clock shows 4 January 2024, 09:00 UTC and advances by a second with every
  call recorded in the trace, whose random source yields the length of the trace, and
  whose codecs write a build as its hour number and a compressed payload with a leading
  marker byte.
\<close>

definition testRuntime :: runtime where
  "testRuntime =
     \<lparr>Local = 0,
      clock = (\<lambda>tr. Add (testTime 81) (int (length tr) * Second)),
      randSource = (\<lambda>tr. length tr),
      json_Marshal = (\<lambda>bs. Inr (map (\<lambda>b. nat ((ns (CreatedAt b) - ns t_2024_01_01) div Hour)) bs)),
      json_Unmarshal = (\<lambda>s. Inr (map testBuild s)),
      gzip_write = (\<lambda>s. 31 # s),
      gzip_read = (\<lambda>s. case s of [] \<Rightarrow> Inl ''unexpected EOF''
                         | x # r \<Rightarrow> if x = 31 then Inr r else Inl ''gzip: invalid header'')\<rparr>"

definition day1 :: timeInterval where
  "day1 = \<lparr>From = t_2024_01_01, To = Add t_2024_01_01 (24 * Hour)\<rparr>"

definition day4 :: timeInterval where
  "day4 = \<lparr>From = Add t_2024_01_01 (72 * Hour), To = Add t_2024_01_01 (96 * Hour)\<rparr>"

text \<open>
  A service with five passed builds on 1 January 2024, delivered on three pages, and no
  build on any other day.
\<close>

definition testClient :: Client where
  "testClient =
     \<lparr>ListByOrg = (\<lambda>tr org opts.
        if CreatedFrom opts = From day1 then
          (if Page opts = 1 then ([testRecord 5, testRecord 11], Some \<lparr>NextPage = 2\<rparr>, None)
           else if Page opts = 2 then ([testRecord 12, testRecord 13], Some \<lparr>NextPage = 3\<rparr>, None)
           else if Page opts = 3 then ([testRecord 23], Some \<lparr>NextPage = 0\<rparr>, None)
           else ([], None, Some ''404 Not Found''))
        else ([], Some \<lparr>NextPage = 0\<rparr>, None))\<rparr>"

text \<open>A cache store in memory: a read finds the payload of the latest write of the key.\<close>

fun lastPut :: "string \<Rightarrow> trace \<Rightarrow> bytes option" where
  "lastPut k [] = None"
| "lastPut k (e # tr) =
     (case lastPut k tr of
        Some v \<Rightarrow> Some v
      | None \<Rightarrow> (case e of EvPut k' v ttl \<Rightarrow> if k' = k then Some v else None | _ \<Rightarrow> None))"

definition memCache :: Cache where
  "memCache =
     \<lparr>Put = (\<lambda>tr k v ttl. None),
      Get = (\<lambda>tr k. case lastPut k tr of None \<Rightarrow> Inl ''cache miss'' | Some v \<Rightarrow> Inr v)\<rparr>"

text \<open>A cache store that is out of order: every read and every write fails.\<close>

definition brokenCache :: Cache where
  "brokenCache =
     \<lparr>Put = (\<lambda>tr k v ttl. Some ''storage error''),
      Get = (\<lambda>tr k. Inl ''connection refused'')\<rparr>"

definition testBuildkite :: NetworkBuildkite where
  "testBuildkite = \<lparr>Client = testClient, Org = ''tink'', Cache = memCache\<rparr>"

text \<open>The same service, failing on every request for page 2.\<close>

definition flakyClient :: Client where
  "flakyClient =
     \<lparr>ListByOrg = (\<lambda>tr org opts.
        if Page opts = 2 then ([], None, Some ''502 Bad Gateway'')
        else ListByOrg testClient tr org opts)\<rparr>"

text \<open>
  The trace of a fetch of 1 January 2024 that starts with an empty trace and a TTL of 10
  minutes: a read of the cache, three requests to the service, a write to the cache.
\<close>

definition fetchTrace1 :: trace where
  "fetchTrace1 =
     [EvGet (cacheKey day1),
      EvListByOrg ''tink'' (listOptions day1),
      EvListByOrg ''tink'' ((listOptions day1)\<lparr>Page := 2\<rparr>),
      EvListByOrg ''tink'' ((listOptions day1)\<lparr>Page := 3\<rparr>),
      EvPut (cacheKey day1) [31, 5, 11, 12, 13, 23] (10 * Minute)]"

definition day2 :: timeInterval where
  "day2 = \<lparr>From = Add t_2024_01_01 (24 * Hour), To = Add t_2024_01_01 (48 * Hour)\<rparr>"

definition day3 :: timeInterval where
  "day3 = \<lparr>From = Add t_2024_01_01 (48 * Hour), To = Add t_2024_01_01 (72 * Hour)\<rparr>"

text \<open>The same service, out of order for the bucket of 2 January 2024.\<close>

definition failingClient :: Client where
  "failingClient =
     \<lparr>ListByOrg = (\<lambda>tr org opts.
        if CreatedFrom opts = From day2 then ([], None, Some ''503 Service Unavailable'')
        else ListByOrg testClient tr org opts)\<rparr>"

text \<open>A predicate that rejects build 12, and one that does the same but panics outside
  the window from 10:00 on 1 January 2024 to 09:00 on 4 January 2024.\<close>

definition not12 :: BuildPredicate where
  "not12 b = Some (ID b \<noteq> ''12'')"

definition not12Strict :: BuildPredicate where
  "not12Strict b =
     (if After (CreatedAt b) (testTime 10) \<and> Before (CreatedAt b) (testTime 81)
      then Some (ID b \<noteq> ''12'') else None)"

text \<open>The trace at which a call has returned.\<close>

definition traceOf :: "'a outcome option \<Rightarrow> trace" where
  "traceOf r = (case r of Some (Returns x tr) \<Rightarrow> tr | _ \<Rightarrow> [])"

text \<open>
  The instant 2024-01-01T22:30:00Z, once as a caller east of Greenwich has it,
  2024-01-02T00:30:00+02:00, and once in UTC.
\<close>

definition fromEast :: Time where
  "fromEast = \<lparr>ns = 1704148200000000000, zone = 7200\<rparr>"

definition fromEastUTC :: Time where
  "fromEastUTC = \<lparr>ns = 1704148200000000000, zone = 0\<rparr>"

definition always :: BuildPredicate where
  "always b = Some True"

section \<open>Properties of the calendar\<close>

lemma div_uniq: "0 \<le> r \<Longrightarrow> r < b \<Longrightarrow> (b * q + r) div b = (q::int)"
  by (simp add: div_pos_pos_trivial)

lemma dm: "0 < b \<Longrightarrow> (a::int) = b * (a div b) + a mod b \<and> 0 \<le> a mod b \<and> a mod b < b"
  by simp

lemma mod_uniq: "0 \<le> r \<Longrightarrow> r < b \<Longrightarrow> (b * q + r) mod b = (r::int)"
  by (simp add: mod_pos_pos_trivial)

lemma absDate_props:
  assumes "absDate d = (y, yd)"
  shows "daysSinceYear1 y + yd = d \<and> 0 \<le> yd \<and> yd < (if isLeap y then 366 else 365)"
proof -
  define n400 where "n400 = d div 146097"
  define d1 where "d1 = d - 146097 * n400"
  define n100 where "n100 = d1 div 36524"
  define n100' where "n100' = n100 - n100 div 4"
  define d2 where "d2 = d1 - 36524 * n100'"
  define n4 where "n4 = d2 div 1461"
  define d3 where "d3 = d2 - 1461 * n4"
  define n1 where "n1 = d3 div 365"
  define n1' where "n1' = n1 - n1 div 4"
  define d4 where "d4 = d3 - 365 * n1'"
  have y: "y = 400 * n400 + 100 * n100' + 4 * n4 + n1' + 1" and yd: "yd = d4"
    using assms unfolding absDate_def Let_def n400_def d1_def n100_def n100'_def d2_def n4_def d3_def n1_def n1'_def d4_def
    by simp_all
  have d1: "0 \<le> d1" "d1 < 146097" using dm [of 146097 d] unfolding d1_def n400_def by linarith+
  have n100: "0 \<le> n100" "n100 \<le> 4" using d1 dm [of 36524 d1] unfolding n100_def by linarith+
  have n100': "(n100 \<le> 3 \<and> n100' = n100) \<or> (n100 = 4 \<and> n100' = 3)"
    using n100 dm [of 4 n100] unfolding n100'_def by linarith
  have d2: "0 \<le> d2" "d2 \<le> 36524" "n100' < 3 \<longrightarrow> d2 < 36524"
    using d1 n100 n100' dm [of 36524 d1] unfolding d2_def n100_def by linarith+
  have n4: "0 \<le> n4" "n4 \<le> 24" using d2 dm [of 1461 d2] unfolding n4_def by linarith+
  have d3: "0 \<le> d3" "d3 < 1461" "n100' < 3 \<and> n4 = 24 \<longrightarrow> d3 < 1460"
    using d2 dm [of 1461 d2] unfolding d3_def n4_def by linarith+
  have n1: "0 \<le> n1" "n1 \<le> 4" using d3 dm [of 365 d3] unfolding n1_def by linarith+
  have n1': "(n1 \<le> 3 \<and> n1' = n1) \<or> (n1 = 4 \<and> n1' = 3)"
    using n1 dm [of 4 n1] unfolding n1'_def by linarith
  have d4: "0 \<le> d4" "d4 \<le> 365" "n1' < 3 \<longrightarrow> d4 < 365" "n100' < 3 \<and> n4 = 24 \<longrightarrow> d4 < 365"
    using d3 n1 n1' dm [of 365 d3] unfolding d4_def n1_def by linarith+
  have b100: "0 \<le> n100'" "n100' \<le> 3" using n100 n100' by linarith+
  have b1: "0 \<le> n1'" "n1' \<le> 3" using n1 n1' by linarith+
  have q400: "(y - 1) div 400 = n400"
    using div_uniq [of "100 * n100' + 4 * n4 + n1'" 400 n400] b100 n4 b1 unfolding y by (simp add: algebra_simps)
  have q100: "(y - 1) div 100 = 4 * n400 + n100'"
    using div_uniq [of "4 * n4 + n1'" 100 "4 * n400 + n100'"] n4 b1 unfolding y by (simp add: algebra_simps)
  have q4: "(y - 1) div 4 = 100 * n400 + 25 * n100' + n4"
    using div_uniq [of "n1'" 4 "100 * n400 + 25 * n100' + n4"] b1 unfolding y by (simp add: algebra_simps)
  have sum: "daysSinceYear1 y + yd = d"
    unfolding daysSinceYear1_def Let_def q400 q100 q4 yd
    unfolding y d4_def d3_def d2_def d1_def by simp
  have mm: "\<And>b q r. (b * q + r) mod b = r mod (b::int)" by simp
  have m4: "y mod 4 = (n1' + 1) mod 4"
    using mm [of 4 "100 * n400 + 25 * n100' + n4" "n1' + 1"] unfolding y by (simp add: algebra_simps)
  have m100: "y mod 100 = (4 * n4 + n1' + 1) mod 100"
    using mm [of 100 "4 * n400 + n100'" "4 * n4 + n1' + 1"] unfolding y by (simp add: algebra_simps)
  have m400: "y mod 400 = (100 * n100' + 4 * n4 + n1' + 1) mod 400"
    using mm [of 400 "n400" "100 * n100' + 4 * n4 + n1' + 1"] unfolding y by (simp add: algebra_simps)
  have leap: "\<not> isLeap y \<longrightarrow> n1' < 3 \<or> (n100' < 3 \<and> n4 = 24)"
  proof (intro impI)
    assume nl: "\<not> isLeap y"
    show "n1' < 3 \<or> (n100' < 3 \<and> n4 = 24)"
    proof (rule ccontr)
      assume "\<not> ?thesis"
      then have a: "n1' = 3" and b: "n100' = 3 \<or> n4 < 24" using b1 b100 n4 by linarith+
      have "y mod 4 = 0" unfolding m4 a by simp
      moreover have "y mod 100 \<noteq> 0 \<or> y mod 400 = 0"
      proof (cases "n4 < 24")
        case True
        then have "0 < 4 * n4 + n1' + 1 \<and> 4 * n4 + n1' + 1 < 100" using n4 a by linarith
        then have "y mod 100 = 4 * n4 + n1' + 1" unfolding m100 by simp
        then show ?thesis using n4 a by linarith
      next
        case False
        then have "n4 = 24" "n100' = 3" using n4 b by linarith+
        then have "y mod 400 = 0" unfolding m400 a by simp
        then show ?thesis by simp
      qed
      ultimately show False using nl unfolding isLeap_def by simp
    qed
  qed
  show ?thesis using sum d4 leap unfolding yd by auto
qed


lemma monthDay_props:
  assumes "0 \<le> day" "day < 365" "monthDay day = (m, dd)"
  shows "1 \<le> m \<and> m \<le> 12 \<and> 1 \<le> dd \<and> daysBefore ! nat (m - 1) + (dd - 1) = day \<and> (m \<ge> 3 \<longleftrightarrow> day \<ge> 59)"
proof -
  define k where "k = day div 31"
  have k: "0 \<le> k" "k \<le> 11" "31 * k \<le> day" "day < 31 * k + 31"
    using assms(1,2) dm [of 31 day] unfolding k_def by linarith+
  have "k = 0 \<or> k = 1 \<or> k = 2 \<or> k = 3 \<or> k = 4 \<or> k = 5 \<or> k = 6
    \<or> k = 7 \<or> k = 8 \<or> k = 9 \<or> k = 10 \<or> k = 11" using k(1,2) by arith
  then consider "k = 0" | "k = 1" | "k = 2" | "k = 3" | "k = 4" | "k = 5" | "k = 6"
    | "k = 7" | "k = 8" | "k = 9" | "k = 10" | "k = 11" by blast
  then show ?thesis
  proof cases
    case 1 then show ?thesis using assms k unfolding monthDay_def k_def [symmetric] Let_def
      by (auto simp: daysBefore_def split: if_splits)
  next
    case 2 then show ?thesis using assms k unfolding monthDay_def k_def [symmetric] Let_def
      by (auto simp: daysBefore_def split: if_splits)
  next
    case 3 then show ?thesis using assms k unfolding monthDay_def k_def [symmetric] Let_def
      by (auto simp: daysBefore_def split: if_splits)
  next
    case 4 then show ?thesis using assms k unfolding monthDay_def k_def [symmetric] Let_def
      by (auto simp: daysBefore_def split: if_splits)
  next
    case 5 then show ?thesis using assms k unfolding monthDay_def k_def [symmetric] Let_def
      by (auto simp: daysBefore_def split: if_splits)
  next
    case 6 then show ?thesis using assms k unfolding monthDay_def k_def [symmetric] Let_def
      by (auto simp: daysBefore_def split: if_splits)
  next
    case 7 then show ?thesis using assms k unfolding monthDay_def k_def [symmetric] Let_def
      by (auto simp: daysBefore_def split: if_splits)
  next
    case 8 then show ?thesis using assms k unfolding monthDay_def k_def [symmetric] Let_def
      by (auto simp: daysBefore_def split: if_splits)
  next
    case 9 then show ?thesis using assms k unfolding monthDay_def k_def [symmetric] Let_def
      by (auto simp: daysBefore_def split: if_splits)
  next
    case 10 then show ?thesis using assms k unfolding monthDay_def k_def [symmetric] Let_def
      by (auto simp: daysBefore_def split: if_splits)
  next
    case 11 then show ?thesis using assms k unfolding monthDay_def k_def [symmetric] Let_def
      by (auto simp: daysBefore_def split: if_splits)
  next
    case 12 then show ?thesis using assms k unfolding monthDay_def k_def [symmetric] Let_def
      by (auto simp: daysBefore_def split: if_splits)
  qed
qed


lemma daysToDate_props:
  assumes "daysToDate d = (y, m, dd)"
  shows "1 \<le> m \<and> m \<le> 12 \<and> 1 \<le> dd
         \<and> daysSinceYear1 y + daysBefore ! nat (m - 1)
             + (if isLeap y \<and> m \<ge> 3 then 1 else 0) + (dd - 1) = d"
proof -
  obtain y' yd where ad: "absDate d = (y', yd)" by (cases "absDate d")
  note p = absDate_props [OF ad]
  show ?thesis
  proof (cases "isLeap y' \<and> yd = 31 + 29 - 1")
    case True
    then have "y = y'" "m = 2" "dd = 29" using assms ad unfolding daysToDate_def by simp_all
    then show ?thesis using p True by (simp add: daysBefore_def)
  next
    case False
    define day where "day = (if isLeap y' \<and> yd > 31 + 29 - 1 then yd - 1 else yd)"
    have md: "monthDay day = (m, dd)" and yy: "y = y'"
      using assms ad False unfolding daysToDate_def day_def by (auto split: prod.splits)
    have rng: "0 \<le> day" "day < 365" using p False unfolding day_def by (auto split: if_splits)
    note q = monthDay_props [OF rng md]
    show ?thesis
    proof (cases "isLeap y' \<and> yd > 31 + 29 - 1")
      case True
      then have "day \<ge> 59" unfolding day_def by simp
      then show ?thesis using q p True unfolding yy day_def by simp
    next
      case False
      show ?thesis
      proof (cases "isLeap y'")
        case True
        then have "yd < 59" using False \<open>\<not> (isLeap y' \<and> yd = 31 + 29 - 1)\<close> by simp
        then show ?thesis using q p True unfolding yy day_def by simp
      next
        case False
        then show ?thesis using q p unfolding yy day_def by simp
      qed
    qed
  qed
qed

lemma time_Date_midnight:
  "time_Date (Year t) (Month t) (Day t) 0 0 0 0 l =
     \<lparr>ns = (((Unix t + zone t) div 86400) * 86400 - l) * 1000000000, zone = l\<rparr>"
proof -
  obtain y m dd where c: "civil t = (y, m, dd)" by (cases "civil t") auto
  then have d: "daysToDate ((Unix t + zone t) div 86400 + unixEpochDay) = (y, m, dd)"
    unfolding civil_def .
  note p = daysToDate_props [OF d]
  have m: "(m - 1) div 12 = 0" "(m - 1) mod 12 = m - 1" using p by simp_all
  have "Year t = y" "Month t = m" "Day t = dd" using c unfolding Year_def Month_def Day_def by simp_all
  then show ?thesis using p unfolding time_Date_def norm_def m Let_def
    by (cases "isLeap y \<and> m \<ge> 3") auto
qed

section \<open>Properties of the interval generator\<close>

lemma day_ns: "24 * Hour = 86400000000000"
  by (simp add: Hour_def Minute_def Second_def Nanosecond_def)

lemma Add_0: "Add t 0 = t"
  by (simp add: Add_def)

lemma Add_Add: "Add (Add t a) b = Add t (a + b)"
  by (simp add: Add_def)

lemma dayCount_step:
  assumes "Before sd to"
  shows "dayCount sd to = Suc (dayCount (Add sd (24 * Hour)) to)"
proof -
  have pos: "0 \<le> ns to - ns sd - 1" using assms by (simp add: Before_def)
  then have nn: "0 \<le> (ns to - ns sd - 1) div 86400000000000"
    by (simp add: pos_imp_zdiv_nonneg_iff)
  have "(ns to - ns sd + 86400000000000 - 1) div 86400000000000
        = (ns to - ns sd - 1) div 86400000000000 + 1"
    using div_add_self2 [of 86400000000000 "ns to - ns sd - 1"] by (simp add: algebra_simps)
  then show ?thesis using nn
    unfolding dayCount_def day_ns Add_def by (simp add: Suc_nat_eq_nat_zadd1 algebra_simps)
qed

lemma dayCount_stop:
  assumes "\<not> Before sd to"
  shows "dayCount sd to = 0"
proof -
  have "ns to - ns sd + 86400000000000 - 1 < 86400000000000" using assms by (simp add: Before_def)
  then have "(ns to - ns sd + 86400000000000 - 1) div 86400000000000 \<le> 0"
    using zdiv_mono1 [of "ns to - ns sd + 86400000000000 - 1" "86400000000000 - 1" 86400000000000]
    by simp
  then show ?thesis unfolding dayCount_def day_ns by simp
qed

lemma dailyLoop_eq:
  "dailyLoop sd ed to res = res @ map (dayInterval sd ed) [0..<dayCount sd to]"
proof (induction sd ed to res rule: dailyLoop.induct)
  case (1 startDay endDay to res)
  show ?case
  proof (cases "Before startDay to")
    case True
    have shift: "dayInterval (Add startDay (24 * Hour)) (Add endDay (24 * Hour)) k
                 = dayInterval startDay endDay (Suc k)" for k
      by (simp add: dayInterval_def Add_Add algebra_simps)
    have z: "dayInterval startDay endDay 0 = \<lparr>From = startDay, To = endDay\<rparr>"
      by (simp add: dayInterval_def Add_0)
    have "dailyLoop startDay endDay to res
          = dailyLoop (Add startDay (24 * Hour)) (Add endDay (24 * Hour)) to
              (res @ [\<lparr>From = startDay, To = endDay\<rparr>])"
      using True by (subst dailyLoop.simps) simp
    also have "\<dots> = (res @ [\<lparr>From = startDay, To = endDay\<rparr>])
                 @ map (dayInterval (Add startDay (24 * Hour)) (Add endDay (24 * Hour)))
                     [0..<dayCount (Add startDay (24 * Hour)) to]"
      using "1.IH" [OF True] .
    also have "\<dots> = res @ map (dayInterval startDay endDay) [0..<dayCount startDay to]"
      unfolding dayCount_step [OF True] map_upt_Suc shift z by simp
    finally show ?thesis .
  next
    case False
    then show ?thesis by (subst dailyLoop.simps) (simp add: dayCount_stop)
  qed
qed

lemma dayCount_iff: "k < dayCount sd to \<longleftrightarrow> Before (Add sd (int k * (24 * Hour))) to"
proof -
  define a where "a = ns to - ns sd"
  have dmf: "a + 86400000000000 - 1 = 86400000000000 * ((a + 86400000000000 - 1) div 86400000000000)
                + (a + 86400000000000 - 1) mod 86400000000000"
       "0 \<le> (a + 86400000000000 - 1) mod 86400000000000"
       "(a + 86400000000000 - 1) mod 86400000000000 < 86400000000000"
    by simp_all
  define q where "q = (a + 86400000000000 - 1) div 86400000000000"
  have "int k < q \<longleftrightarrow> int k * 86400000000000 < a"
    using dmf unfolding q_def [symmetric] by linarith
  moreover have "k < nat q \<longleftrightarrow> int k < q" by linarith
  moreover have "int k * 86400000000000 < a \<longleftrightarrow> ns sd + int k * 86400000000000 < ns to"
    unfolding a_def by linarith
  ultimately show ?thesis
    unfolding dayCount_def day_ns Before_def Add_def q_def a_def by simp
qed

lemma generateDailyIntervals_eq:
  "generateDailyIntervals local from to =
     map (dayInterval (localMidnight local from) (Add (localMidnight local from) (24 * Hour)))
       [0..<dayCount (localMidnight local from) to]"
  unfolding generateDailyIntervals_def Let_def localMidnight_def [symmetric] dailyLoop_eq by simp

lemma localMidnight_eq:
  "localMidnight local from =
     \<lparr>ns = (((Unix from + zone from) div 86400) * 86400 - local) * 1000000000, zone = local\<rparr>"
  unfolding localMidnight_def by (rule time_Date_midnight)

lemma Unix_localMidnight:
  "Unix (localMidnight local from) = ((Unix from + zone from) div 86400) * 86400 - local"
  unfolding localMidnight_eq Unix_def by simp

lemma civil_localMidnight: "civil (localMidnight local from) = civil from"
proof -
  have "zone (localMidnight local from) = local" unfolding localMidnight_eq by simp
  then show ?thesis unfolding civil_def Unix_localMidnight by simp
qed

lemma generateDailyIntervals_cover:
  assumes "ns (localMidnight local from) \<le> ns t" "Before t to"
  shows "\<exists>iv \<in> set (generateDailyIntervals local from to). ns (From iv) \<le> ns t \<and> Before t (To iv)"
proof -
  define midnight where "midnight = localMidnight local from"
  define ivs where "ivs = generateDailyIntervals local from to"
  have ivs: "ivs = map (dayInterval midnight (Add midnight (24 * Hour))) [0..<dayCount midnight to]"
    unfolding ivs_def midnight_def by (rule generateDailyIntervals_eq)
  define k where "k = nat ((ns t - ns midnight) div 86400000000000)"
  have q: "ns t - ns midnight = 86400000000000 * ((ns t - ns midnight) div 86400000000000)
             + (ns t - ns midnight) mod 86400000000000"
      "0 \<le> (ns t - ns midnight) mod 86400000000000"
      "(ns t - ns midnight) mod 86400000000000 < 86400000000000"
    by simp_all
  have nn: "0 \<le> (ns t - ns midnight) div 86400000000000"
    using assms(1) unfolding midnight_def by (simp add: pos_imp_zdiv_nonneg_iff)
  then have ik: "int k = (ns t - ns midnight) div 86400000000000" unfolding k_def by simp
  have lo: "ns midnight + int k * 86400000000000 \<le> ns t"
    and hi: "ns t < ns midnight + int k * 86400000000000 + 86400000000000"
    unfolding ik using q by linarith+
  have "Before (Add midnight (int k * (24 * Hour))) to"
    using lo assms(2) unfolding Before_def Add_def day_ns by simp
  then have kl: "k < length ivs" unfolding ivs by (simp add: dayCount_iff)
  then have nth: "ivs ! k = dayInterval midnight (Add midnight (24 * Hour)) k"
    unfolding ivs by simp
  have "ivs ! k \<in> set ivs" using kl by simp
  moreover have "ns (From (ivs ! k)) \<le> ns t \<and> Before t (To (ivs ! k))"
    using lo hi unfolding nth dayInterval_def Before_def Add_def day_ns by simp
  ultimately show ?thesis unfolding ivs_def by blast
qed

text \<open>
  Claim C3. For all instants \<open>from\<close> and \<open>to\<close> (in particular for \<open>from \<le> to\<close>), the
  intervals of \<open>generateDailyIntervals\<close> are exact 24-hour intervals in order: the
  \<open>i\<close>-th starts \<open>i\<close> times 24 hours after local midnight of the calendar day of \<open>from\<close>
  (an instant in the local zone, with the calendar date of \<open>from\<close> and the clock reading
  00:00:00), each interval ends where the next one starts, the starts increase strictly,
  an interval is in the sequence if and only if its start is strictly before \<open>to\<close>, and
  every instant from that midnight up to \<open>to\<close> (exclusive) lies in one of the intervals.
\<close>

theorem generateDailyIntervals_shape:
  fixes local :: Location and "from" to :: Time
  defines "ivs \<equiv> generateDailyIntervals local from to"
    and "midnight \<equiv> localMidnight local from"
  shows "zone midnight = local \<and> civil midnight = civil from
         \<and> (ns midnight + local * 1000000000) mod (24 * Hour) = 0
         \<and> (\<forall>i < length ivs. From (ivs ! i) = Add midnight (int i * (24 * Hour))
                \<and> To (ivs ! i) = Add (From (ivs ! i)) (24 * Hour))
         \<and> (\<forall>i. Suc i < length ivs \<longrightarrow> From (ivs ! Suc i) = To (ivs ! i)
                \<and> Before (From (ivs ! i)) (From (ivs ! Suc i)))
         \<and> (\<forall>k. k < length ivs \<longleftrightarrow> Before (Add midnight (int k * (24 * Hour))) to)
         \<and> (\<forall>t. ns midnight \<le> ns t \<and> Before t to \<longrightarrow>
                (\<exists>iv \<in> set ivs. ns (From iv) \<le> ns t \<and> Before t (To iv)))"
proof -
  have ivs: "ivs = map (dayInterval midnight (Add midnight (24 * Hour))) [0..<dayCount midnight to]"
    unfolding ivs_def midnight_def by (rule generateDailyIntervals_eq)
  have len: "length ivs = dayCount midnight to" unfolding ivs by simp
  have nth: "ivs ! i = dayInterval midnight (Add midnight (24 * Hour)) i" if "i < length ivs" for i
    using that unfolding ivs by simp
  have z: "zone midnight = local" unfolding midnight_def localMidnight_eq by simp
  have c: "civil midnight = civil from" unfolding midnight_def by (rule civil_localMidnight)
  have al: "(ns midnight + local * 1000000000) mod (24 * Hour) = 0"
    unfolding midnight_def localMidnight_eq day_ns by (simp add: algebra_simps)
  have p1: "\<forall>i < length ivs. From (ivs ! i) = Add midnight (int i * (24 * Hour))
                \<and> To (ivs ! i) = Add (From (ivs ! i)) (24 * Hour)"
    by (simp add: nth dayInterval_def Add_Add algebra_simps)
  have p2: "\<forall>i. Suc i < length ivs \<longrightarrow> From (ivs ! Suc i) = To (ivs ! i)
                \<and> Before (From (ivs ! i)) (From (ivs ! Suc i))"
    by (simp add: nth dayInterval_def Before_def Add_def Hour_def Minute_def Second_def Nanosecond_def)
  have p3: "\<forall>k. k < length ivs \<longleftrightarrow> Before (Add midnight (int k * (24 * Hour))) to"
    unfolding len by (simp add: dayCount_iff)
  have p4: "\<forall>t. ns midnight \<le> ns t \<and> Before t to \<longrightarrow>
                (\<exists>iv \<in> set ivs. ns (From iv) \<le> ns t \<and> Before t (To iv))"
    unfolding ivs_def midnight_def using generateDailyIntervals_cover by blast
  show ?thesis using z c al p1 p2 p3 p4 by blast
qed

text \<open>
  Witness for C3: a request from 1 January 2024, 10:00 UTC up to 3 January 2024, 09:00 UTC
  yields three daily intervals; the last one ends after \<open>to\<close>.
\<close>

theorem generateDailyIntervals_shape_witness:
  "length (generateDailyIntervals 0 (Add t_2024_01_01 (10 * Hour)) (Add t_2024_01_01 (57 * Hour))) = 3
   \<and> From (generateDailyIntervals 0 (Add t_2024_01_01 (10 * Hour)) (Add t_2024_01_01 (57 * Hour)) ! 2)
       = Add t_2024_01_01 (48 * Hour)
   \<and> To (generateDailyIntervals 0 (Add t_2024_01_01 (10 * Hour)) (Add t_2024_01_01 (57 * Hour)) ! 2)
       = Add t_2024_01_01 (72 * Hour)
   \<and> From (generateDailyIntervals 0 (Add t_2024_01_01 (10 * Hour)) (Add t_2024_01_01 (57 * Hour)) ! 1)
       = To (generateDailyIntervals 0 (Add t_2024_01_01 (10 * Hour)) (Add t_2024_01_01 (57 * Hour)) ! 0)
   \<and> After (Add t_2024_01_01 (72 * Hour)) (Add t_2024_01_01 (57 * Hour))"
proof -
  let ?f = "Add t_2024_01_01 (10 * Hour)"
  let ?t = "Add t_2024_01_01 (57 * Hour)"
  let ?ivs = "generateDailyIntervals 0 ?f ?t"
  note s = generateDailyIntervals_shape [of 0 ?f ?t]
  have m: "localMidnight 0 ?f = t_2024_01_01" by code_simp
  have b: "Before (Add (localMidnight 0 ?f) (int k * (24 * Hour))) ?t \<longleftrightarrow> k < 3" for k
    unfolding m by (simp add: Before_def Add_def t_2024_01_01_def Hour_def Minute_def Second_def
        Nanosecond_def) linarith
  have len: "k < length ?ivs \<longleftrightarrow> k < 3" for k
    using s b by blast
  then have l3: "length ?ivs = 3"
    by (metis lessI less_irrefl_nat linorder_neqE_nat)
  from s have all: "\<forall>i < length ?ivs. From (?ivs ! i) = Add (localMidnight 0 ?f) (int i * (24 * Hour))
            \<and> To (?ivs ! i) = Add (From (?ivs ! i)) (24 * Hour)"
    by blast
  have i2: "From (?ivs ! 2) = Add (localMidnight 0 ?f) (int 2 * (24 * Hour))
            \<and> To (?ivs ! 2) = Add (From (?ivs ! 2)) (24 * Hour)"
    using all [rule_format, of 2] l3 by simp
  from s have nxt: "\<forall>i. Suc i < length ?ivs \<longrightarrow> From (?ivs ! Suc i) = To (?ivs ! i)
            \<and> Before (From (?ivs ! i)) (From (?ivs ! Suc i))"
    by blast
  have i1: "From (?ivs ! 1) = To (?ivs ! 0)"
    using nxt [rule_format, of 0] l3 by simp
  have a: "After (Add t_2024_01_01 (72 * Hour)) ?t"
    by (simp add: After_def Add_def Hour_def Minute_def Second_def Nanosecond_def)
  show ?thesis using l3 i2 i1 a unfolding m by (simp add: Add_def)
qed




section \<open>The TTL policy\<close>

lemma Sub_gt_12h: "Sub t u > 12 * Hour \<longleftrightarrow> ns t - ns u > 12 * Hour"
  by (simp add: Sub_def Let_def minDuration_def maxDuration_def Hour_def Minute_def Second_def
      Nanosecond_def)

lemma cacheTTL_recent:
  assumes "ns (clock rt tr) - ns (To interval) \<le> 12 * Hour"
  shows "cacheTTL rt interval tr = (10 * Minute, tr @ [EvNow])"
  using assms by (simp add: cacheTTL_def time_Now_def Sub_gt_12h)

lemma cacheTTL_settled:
  assumes "ns (clock rt tr) - ns (To interval) > 12 * Hour"
  shows "cacheTTL rt interval tr =
           (60 * 24 * Hour + (int (randSource rt (tr @ [EvNow])) mod (7 * 24)) * Hour,
            tr @ [EvNow, EvIntn (7 * 24)])"
  using assms by (simp add: cacheTTL_def time_Now_def rand_Intn_def Sub_gt_12h Let_def)

text \<open>
  Claim C4. When the end of the interval is at most 12 hours before the reading of the
  clock (or after it), \<open>cacheTTL\<close> returns exactly 10 minutes. When it is more than 12
  hours before, the result lies between 60 days and 60 days plus 7 days: it is 60 days
  plus a whole number of hours below 168 that is drawn from the random source at this
  call, so a later call, which draws again, may return another value in the same range.
\<close>

theorem cacheTTL_policy:
  "(ns (clock rt tr) - ns (To interval) \<le> 12 * Hour \<longrightarrow>
      fst (cacheTTL rt interval tr) = 10 * Minute)
   \<and> (ns (clock rt tr) - ns (To interval) > 12 * Hour \<longrightarrow>
        60 * 24 * Hour \<le> fst (cacheTTL rt interval tr)
        \<and> fst (cacheTTL rt interval tr) \<le> 60 * 24 * Hour + 7 * 24 * Hour
        \<and> fst (cacheTTL rt interval tr)
            = 60 * 24 * Hour + (int (randSource rt (tr @ [EvNow])) mod (7 * 24)) * Hour
        \<and> snd (cacheTTL rt interval tr) = tr @ [EvNow, EvIntn (7 * 24)])"
proof -
  have r: "0 \<le> int (randSource rt (tr @ [EvNow])) mod (7 * 24)"
    "int (randSource rt (tr @ [EvNow])) mod (7 * 24) < 7 * 24"
    by simp_all
  have h: "0 < Hour" by (simp add: Hour_def Minute_def Second_def Nanosecond_def)
  have "0 \<le> (int (randSource rt (tr @ [EvNow])) mod (7 * 24)) * Hour"
    using r h by simp
  moreover have "(int (randSource rt (tr @ [EvNow])) mod (7 * 24)) * Hour \<le> 7 * 24 * Hour"
    using r h by (simp add: mult_right_mono)
  ultimately show ?thesis
    using cacheTTL_recent [of rt tr interval] cacheTTL_settled [of rt tr interval] by auto
qed

text \<open>
  Witness for C4: at 09:00 on 4 January 2024 the bucket of that day gets 10 minutes; the
  bucket of 1 January gets 60 days and 1 hour at a first call and 60 days and 3 hours at
  the call after it.
\<close>

theorem cacheTTL_policy_witness:
  "fst (cacheTTL testRuntime day4 []) = 10 * Minute
   \<and> fst (cacheTTL testRuntime day1 []) = 60 * 24 * Hour + 1 * Hour
   \<and> fst (cacheTTL testRuntime day1 (snd (cacheTTL testRuntime day1 []))) = 60 * 24 * Hour + 3 * Hour"
proof -
  have a: "ns (clock testRuntime []) - ns (To day4) \<le> 12 * Hour" by code_simp
  have b: "ns (clock testRuntime []) - ns (To day1) > 12 * Hour" by code_simp
  have c: "ns (clock testRuntime [EvNow, EvIntn (7 * 24)]) - ns (To day1) > 12 * Hour" by code_simp
  have r1: "int (randSource testRuntime ([] @ [EvNow])) mod (7 * 24) = 1" by code_simp
  have r2: "int (randSource testRuntime ([EvNow, EvIntn (7 * 24)] @ [EvNow])) mod (7 * 24) = 3"
    by code_simp
  have s1: "snd (cacheTTL testRuntime day1 []) = [EvNow, EvIntn (7 * 24)]"
    using cacheTTL_policy [of testRuntime "[]" day1] b by simp
  show ?thesis
    using cacheTTL_policy [of testRuntime "[]" day4] a
      cacheTTL_policy [of testRuntime "[]" day1] b
      cacheTTL_policy [of testRuntime "[EvNow, EvIntn (7 * 24)]" day1] c
    unfolding s1 r1 r2 by simp
qed

section \<open>The remote query\<close>

declare pageLoop.simps [code]

lemma query_Returns_iff:
  "query b org opts tr = Returns (builds, resp, err) tr1 \<longleftrightarrow>
     tr1 = tr @ [EvListByOrg org opts]
     \<and> (\<exists>bbuilds. ListByOrg (Client b) tr org opts = (bbuilds, resp, err)
            \<and> (if err \<noteq> None then builds = [] else convertBuilds bbuilds [] = Some builds))"
  by (cases "ListByOrg (Client b) tr org opts")
     (auto simp: query_def Let_def split: option.splits)

lemma query_page:
  assumes "ListByOrg (Client b) tr org opts = (bbuilds, resp, None)"
    "convertBuilds bbuilds [] = Some builds"
  shows "query b org opts tr = Returns (builds, resp, None) (tr @ [EvListByOrg org opts])"
  using assms by (simp add: query_def)

lemma query_error:
  assumes "ListByOrg (Client b) tr org opts = (bbuilds, resp, Some e)"
  shows "query b org opts tr = Returns ([], resp, Some e) (tr @ [EvListByOrg org opts])"
  using assms by (simp add: query_def)

lemma pageLoop_next:
  assumes "query b (Org b) opts tr = Returns (builds, Some r, None) tr1" "0 < NextPage r"
  shows "pageLoop b opts result tr = pageLoop b (opts\<lparr>Page := NextPage r\<rparr>) (result @ builds) tr1"
  using assms by (subst pageLoop.simps) simp

lemma pageLoop_break:
  assumes "query b (Org b) opts tr = Returns (builds, Some r, None) tr1" "NextPage r \<le> 0"
  shows "pageLoop b opts result tr = Some (Returns (Inr (result @ builds)) tr1)"
  using assms by (subst pageLoop.simps) simp

lemma pageLoop_error:
  assumes "query b (Org b) opts tr = Returns (x, resp, Some e) tr1"
  shows "pageLoop b opts result tr = Some (Returns (Inl e) tr1)"
  using assms by (subst pageLoop.simps) simp

lemma pageLoop_visited:
  assumes "pagesVisited b opts tr run opts1 tr1"
  shows "pageLoop b opts result tr = pageLoop b opts1 (result @ concat (map snd run)) tr1"
  using assms
proof (induction arbitrary: result rule: pagesVisited.induct)
  case (pagesVisited_none opts tr)
  show ?case by simp
next
  case (pagesVisited_next tr opts bbuilds r builds run opts' tr')
  note q = query_page [OF pagesVisited_next.hyps(1,2)]
  show ?case
    unfolding pageLoop_next [OF q pagesVisited_next.hyps(3)] pagesVisited_next.IH by simp
qed


lemma pageLoop_returns:
  assumes "pageLoop b opts result tr = Some y"
  shows "\<exists>run opts1 tr1. pagesVisited b opts tr run opts1 tr1
           \<and> pageLoopEnd b opts1 (result @ concat (map snd run)) tr1 = Some y"
  using assms
proof (induction b opts result tr y rule: pageLoop.raw_induct [rotated 1, consumes 1])
  case (1 pl b opts result tr y)
  note none = pagesVisited_none [of b opts tr]
  show ?case
  proof (cases "pageLoopEnd b opts result tr")
    case (Some z)
    then have "y = z" using 1(2)
      by (auto simp: pageLoopEnd_def split: outcome.splits option.splits if_splits)
    then show ?thesis using Some none by (intro exI [of _ "[]"] exI conjI) auto
  next
    case None
    then obtain builds r tr1 where
      q: "query b (Org b) opts tr = Returns (builds, Some r, None) tr1" and n: "0 < NextPage r"
      by (auto simp: pageLoopEnd_def split: outcome.splits option.splits if_splits)
    then have rec: "pl b (opts\<lparr>Page := NextPage r\<rparr>) (result @ builds) tr1 = Some y"
      using 1(2) by simp
    from q obtain bbuilds where
      l: "ListByOrg (Client b) tr (Org b) opts = (bbuilds, Some r, None)"
      and cv: "convertBuilds bbuilds [] = Some builds"
      and t: "tr1 = tr @ [EvListByOrg (Org b) opts]"
      unfolding query_Returns_iff by auto
    from 1(1) [OF rec] obtain run opts1 tr2 where
      v: "pagesVisited b (opts\<lparr>Page := NextPage r\<rparr>) tr1 run opts1 tr2"
      and c: "pageLoopEnd b opts1 ((result @ builds) @ concat (map snd run)) tr2 = Some y"
      by blast
    have v': "pagesVisited b opts tr ((opts, builds) # run) opts1 tr2"
      using l cv n v unfolding t by (intro pagesVisited_next) auto
    show ?thesis
      using v' c by (intro exI [of _ "(opts, builds) # run"] exI [of _ opts1] exI [of _ tr2]) simp
  qed
qed


lemma pageLoopEnd_Inl:
  "pageLoopEnd b opts result tr = Some (Returns (Inl e) tr') \<longleftrightarrow>
     (\<exists>bbuilds resp. ListByOrg (Client b) tr (Org b) opts = (bbuilds, resp, Some e)
        \<and> tr' = tr @ [EvListByOrg (Org b) opts])"
  by (cases "ListByOrg (Client b) tr (Org b) opts")
     (auto simp: pageLoopEnd_def query_def Let_def split: option.splits)

lemma pageLoop_end:
  assumes "pageLoopEnd b opts result tr = Some y"
  shows "pageLoop b opts result tr = Some y"
  using assms
  by (subst pageLoop.simps)
     (auto simp: pageLoopEnd_def split: outcome.splits option.splits if_splits)


lemma pageLoop_Inl_iff:
  "pageLoop b opts result tr = Some (Returns (Inl e) tr') \<longleftrightarrow>
      (\<exists>run opts1 tr1 bbuilds resp.
          pagesVisited b opts tr run opts1 tr1
          \<and> ListByOrg (Client b) tr1 (Org b) opts1 = (bbuilds, resp, Some e)
          \<and> tr' = tr1 @ [EvListByOrg (Org b) opts1])" (is "?L = ?R")
proof
  assume ?L
  from pageLoop_returns [OF this] obtain run opts1 tr1 where
    v: "pagesVisited b opts tr run opts1 tr1"
    and c: "pageLoopEnd b opts1 (result @ concat (map snd run)) tr1 = Some (Returns (Inl e) tr')"
    by blast
  from c [unfolded pageLoopEnd_Inl] obtain bbuilds resp where
    "ListByOrg (Client b) tr1 (Org b) opts1 = (bbuilds, resp, Some e)"
    "tr' = tr1 @ [EvListByOrg (Org b) opts1]"
    by auto
  then show ?R using v by blast
next
  assume ?R
  then obtain run opts1 tr1 bbuilds resp where
    v: "pagesVisited b opts tr run opts1 tr1"
    and l: "ListByOrg (Client b) tr1 (Org b) opts1 = (bbuilds, resp, Some e)"
    and t: "tr' = tr1 @ [EvListByOrg (Org b) opts1]"
    by blast
  have "pageLoopEnd b opts1 (result @ concat (map snd run)) tr1 = Some (Returns (Inl e) tr')"
    unfolding pageLoopEnd_Inl using l t by simp
  then show ?L unfolding pageLoop_visited [OF v] by (rule pageLoop_end)
qed



section \<open>The bucket cache gateway\<close>

lemma pageLoop_cong_Some:
  assumes "pageLoop b opts result tr = Some y" "Client b' = Client b" "Org b' = Org b"
  shows "pageLoop b' opts result tr = Some y"
proof -
  from pageLoop_returns [OF assms(1)] obtain run opts1 tr1 where
    v: "pagesVisited b opts tr run opts1 tr1"
    and c: "pageLoopEnd b opts1 (result @ concat (map snd run)) tr1 = Some y"
    by blast
  have q: "query b' org o' t' = query b org o' t'" for org o' t'
    by (simp add: query_def assms(2))
  have v': "pagesVisited b' opts tr run opts1 tr1"
    using v
  proof (induction rule: pagesVisited.induct)
    case (pagesVisited_none opts tr)
    show ?case by (rule pagesVisited.pagesVisited_none)
  next
    case (pagesVisited_next tr opts bbuilds r builds run opts' tr')
    show ?case
      using pagesVisited_next.hyps(1,2,3) pagesVisited_next.IH
      by (intro pagesVisited.pagesVisited_next [where bbuilds = bbuilds and r = r])
         (simp_all add: assms(2,3))
  qed
  have c': "pageLoopEnd b' opts1 (result @ concat (map snd run)) tr1 = Some y"
    using c by (simp add: pageLoopEnd_def q assms(3))
  show ?thesis unfolding pageLoop_visited [OF v'] using c' by (rule pageLoop_end)
qed

lemma pageLoop_cong:
  assumes "Client b' = Client b" "Org b' = Org b"
  shows "pageLoop b' opts result tr = pageLoop b opts result tr"
proof (cases "pageLoop b opts result tr")
  case (Some y)
  then show ?thesis using pageLoop_cong_Some [OF Some assms] by simp
next
  case None
  show ?thesis
  proof (cases "pageLoop b' opts result tr")
    case None
    then show ?thesis using \<open>pageLoop b opts result tr = None\<close> by simp
  next
    case (Some y)
    then have "pageLoop b opts result tr = Some y"
      using pageLoop_cong_Some [OF Some] assms by simp
    then show ?thesis using None by simp
  qed
qed

lemma readFromCache_miss:
  assumes "Get (Cache b) tr key = Inl e"
  shows "readFromCache b rt key tr = Returns ([], Some e) (tr @ [EvGet key])"
  using assms by (simp add: readFromCache_def)

lemma readFromCache_hit:
  assumes "Get (Cache b) tr key = Inr s" "decompress rt s = Some s1" "json_Unmarshal rt s1 = Inr res"
  shows "readFromCache b rt key tr = Returns (res, None) (tr @ [EvGet key])"
  using assms by (simp add: readFromCache_def)

lemma listBuildsBetween_miss_eq:
  assumes "Get (Cache b) tr (cacheKey interval) = Inl e"
  shows "listBuildsBetween b rt interval ttl tr
         = remoteFetch b rt interval ttl (tr @ [EvGet (cacheKey interval)])"
  unfolding listBuildsBetween_def readFromCache_miss [OF assms] remoteFetch_def
  by (simp add: populateCache_def compress_def Let_def
      split: option.splits outcome.splits sum.splits)

lemma remoteFetch_cong:
  assumes "Client b' = Client b" "Org b' = Org b"
  shows "remoteFetch b' rt interval ttl tr = remoteFetch b rt interval ttl tr"
  unfolding remoteFetch_def pageLoop_cong [OF assms] ..

lemma remoteFetch_error:
  assumes "remoteFetch b rt interval ttl tr = Some (Returns (bs, Some err) tr')"
  shows "bs = [] \<and> (\<exists>tr1 opts bbuilds resp.
           ListByOrg (Client b) tr1 (Org b) opts = (bbuilds, resp, Some err)
           \<and> tr' = tr1 @ [EvListByOrg (Org b) opts])"
proof -
  from assms have p: "pageLoop b (listOptions interval) [] tr = Some (Returns (Inl err) tr')" and "bs = []"
    by (auto simp: remoteFetch_def split: option.splits outcome.splits sum.splits)
  from p [unfolded pageLoop_Inl_iff] \<open>bs = []\<close>
  show ?thesis by blast
qed

text \<open>
  Claim C8. When the cache read for the key of the bucket returns an error, whichever it
  is, \<open>listBuildsBetween\<close> does the full remote fetch for the interval, from page 1. The
  error of the cache does not reach the caller: the outcome is that of the remote path,
  it is the same for any other cache whose read fails, and an error that is returned is
  one that the service returned to a request of this call.
\<close>

theorem listBuildsBetween_cache_miss:
  "(Get (Cache b) tr (cacheKey interval) = Inl e \<longrightarrow>
      listBuildsBetween b rt interval ttl tr
        = remoteFetch b rt interval ttl (tr @ [EvGet (cacheKey interval)]))
   \<and> (Get (Cache b) tr (cacheKey interval) = Inl e \<and> Get c tr (cacheKey interval) = Inl e' \<longrightarrow>
        listBuildsBetween (b\<lparr>Cache := c\<rparr>) rt interval ttl tr
          = listBuildsBetween b rt interval ttl tr)
   \<and> (Get (Cache b) tr (cacheKey interval) = Inl e
        \<and> listBuildsBetween b rt interval ttl tr = Some (Returns (bs, Some err) tr') \<longrightarrow>
        bs = [] \<and> (\<exists>tr1 opts bbuilds resp.
           ListByOrg (Client b) tr1 (Org b) opts = (bbuilds, resp, Some err)
           \<and> tr' = tr1 @ [EvListByOrg (Org b) opts]))"
proof (intro conjI impI)
  assume "Get (Cache b) tr (cacheKey interval) = Inl e"
  then show "listBuildsBetween b rt interval ttl tr
        = remoteFetch b rt interval ttl (tr @ [EvGet (cacheKey interval)])"
    by (rule listBuildsBetween_miss_eq)
next
  assume h: "Get (Cache b) tr (cacheKey interval) = Inl e \<and> Get c tr (cacheKey interval) = Inl e'"
  then have "Get (Cache (b\<lparr>Cache := c\<rparr>)) tr (cacheKey interval) = Inl e'" by simp
  note m = listBuildsBetween_miss_eq [OF this]
  show "listBuildsBetween (b\<lparr>Cache := c\<rparr>) rt interval ttl tr
          = listBuildsBetween b rt interval ttl tr"
    unfolding m listBuildsBetween_miss_eq [OF h [THEN conjunct1]]
    by (rule remoteFetch_cong) simp_all
next
  assume h: "Get (Cache b) tr (cacheKey interval) = Inl e
        \<and> listBuildsBetween b rt interval ttl tr = Some (Returns (bs, Some err) tr')"
  then have "remoteFetch b rt interval ttl (tr @ [EvGet (cacheKey interval)])
             = Some (Returns (bs, Some err) tr')"
    using listBuildsBetween_miss_eq by metis
  from remoteFetch_error [OF this] show "bs = []"
    and "\<exists>tr1 opts bbuilds resp.
           ListByOrg (Client b) tr1 (Org b) opts = (bbuilds, resp, Some err)
           \<and> tr' = tr1 @ [EvListByOrg (Org b) opts]" by blast+
qed

text \<open>
  Witness for C8: an empty cache in memory and a cache out of order give the same five
  builds of 1 January 2024 without error; when the service fails on page 2, its error is
  the one returned.
\<close>

theorem listBuildsBetween_cache_miss_witness:
  "listBuildsBetween testBuildkite testRuntime day1 (10 * Minute) []
     = Some (Returns ([testBuild 5, testBuild 11, testBuild 12, testBuild 13, testBuild 23], None)
         fetchTrace1)
   \<and> listBuildsBetween (testBuildkite\<lparr>Cache := brokenCache\<rparr>) testRuntime day1 (10 * Minute) []
     = listBuildsBetween testBuildkite testRuntime day1 (10 * Minute) []
   \<and> (\<exists>tr1 opts bbuilds resp.
         ListByOrg flakyClient tr1 ''tink'' opts = (bbuilds, resp, Some ''502 Bad Gateway''))"
proof -
  let ?b = testBuildkite
  let ?f = "testBuildkite\<lparr>Client := flakyClient\<rparr>"
  have m: "Get (Cache ?b) [] (cacheKey day1) = Inl ''cache miss''"
    by (simp add: testBuildkite_def memCache_def)
  have m': "Get brokenCache [] (cacheKey day1) = Inl ''connection refused''"
    by (simp add: brokenCache_def)
  have mf: "Get (Cache ?f) [] (cacheKey day1) = Inl ''cache miss''"
    by (simp add: testBuildkite_def memCache_def)
  have r: "remoteFetch ?b testRuntime day1 (10 * Minute) ([] @ [EvGet (cacheKey day1)])
     = Some (Returns ([testBuild 5, testBuild 11, testBuild 12, testBuild 13, testBuild 23], None)
         fetchTrace1)"
    by code_simp
  have e: "listBuildsBetween ?f testRuntime day1 (10 * Minute) []
     = Some (Returns ([], Some ''502 Bad Gateway'')
         [EvGet (cacheKey day1), EvListByOrg ''tink'' (listOptions day1),
          EvListByOrg ''tink'' ((listOptions day1)\<lparr>Page := 2\<rparr>)])"
    by code_simp
  have cf: "Client ?f = flakyClient" "Org ?f = ''tink''" by (simp_all add: testBuildkite_def)
  note t1 = listBuildsBetween_cache_miss [of ?b "[]" day1 "''cache miss''" testRuntime
      "10 * Minute" brokenCache "''connection refused''"]
  note t2 = listBuildsBetween_cache_miss [of ?f "[]" day1 "''cache miss''" testRuntime
      "10 * Minute" _ _ "[]" "''502 Bad Gateway''"
      "[EvGet (cacheKey day1), EvListByOrg ''tink'' (listOptions day1),
          EvListByOrg ''tink'' ((listOptions day1)\<lparr>Page := 2\<rparr>)]"]
  have a: "listBuildsBetween ?b testRuntime day1 (10 * Minute) []
     = Some (Returns ([testBuild 5, testBuild 11, testBuild 12, testBuild 13, testBuild 23], None)
         fetchTrace1)"
    using t1 m r by simp
  have b: "listBuildsBetween (?b\<lparr>Cache := brokenCache\<rparr>) testRuntime day1 (10 * Minute) []
     = listBuildsBetween ?b testRuntime day1 (10 * Minute) []"
    using t1 m m' by blast
  have c: "\<exists>tr1 opts bbuilds resp.
         ListByOrg flakyClient tr1 ''tink'' opts = (bbuilds, resp, Some ''502 Bad Gateway'')"
    using t2 mf e unfolding cf by blast
  show ?thesis using a b c by blast
qed

text \<open>
  Claim C9. When the remote fetch for a bucket has succeeded and the write to the cache
  fails, \<open>populateCache\<close> returns the error of the cache and \<open>listBuildsBetween\<close> drops it:
  the fetched builds are returned without error.
\<close>

theorem listBuildsBetween_put_failure:
  assumes "Get (Cache b) tr (cacheKey interval) = Inl e"
    and "pageLoop b (listOptions interval) [] (tr @ [EvGet (cacheKey interval)])
           = Some (Returns (Inr result) tr2)"
    and "json_Marshal rt result = Inr s"
    and "Put (Cache b) tr2 (cacheKey interval) (compress rt s) ttl = Some perr"
  shows "populateCache b rt (cacheKey interval) result ttl tr2
           = Returns (Some perr) (tr2 @ [EvPut (cacheKey interval) (compress rt s) ttl])
         \<and> listBuildsBetween b rt interval ttl tr
           = Some (Returns (result, None) (tr2 @ [EvPut (cacheKey interval) (compress rt s) ttl]))"
  using assms
  by (simp add: listBuildsBetween_def readFromCache_miss populateCache_def Let_def)

text \<open>
  Witness for C9: with the cache out of order the five builds of 1 January 2024 are
  returned without error although the write has failed.
\<close>

theorem listBuildsBetween_put_failure_witness:
  "Put brokenCache (butlast fetchTrace1) (cacheKey day1) [31, 5, 11, 12, 13, 23] (10 * Minute)
     = Some ''storage error''
   \<and> listBuildsBetween (testBuildkite\<lparr>Cache := brokenCache\<rparr>) testRuntime day1 (10 * Minute) []
     = Some (Returns ([testBuild 5, testBuild 11, testBuild 12, testBuild 13, testBuild 23], None)
         fetchTrace1)"
proof -
  let ?b = "testBuildkite\<lparr>Cache := brokenCache\<rparr>"
  let ?res = "[testBuild 5, testBuild 11, testBuild 12, testBuild 13, testBuild 23]"
  let ?s = "[5, 11, 12, 13, 23]"
  have g: "Get (Cache ?b) [] (cacheKey day1) = Inl ''connection refused''"
    by (simp add: brokenCache_def)
  have p: "pageLoop ?b (listOptions day1) [] ([] @ [EvGet (cacheKey day1)])
             = Some (Returns (Inr ?res) (butlast fetchTrace1))"
    by code_simp
  have j: "json_Marshal testRuntime ?res = Inr ?s" by code_simp
  have w: "Put (Cache ?b) (butlast fetchTrace1) (cacheKey day1) (compress testRuntime ?s)
             (10 * Minute) = Some ''storage error''"
    by (simp add: brokenCache_def)
  have w': "Put brokenCache (butlast fetchTrace1) (cacheKey day1) [31, 5, 11, 12, 13, 23]
             (10 * Minute) = Some ''storage error''"
    by (simp add: brokenCache_def)
  have t: "butlast fetchTrace1 @ [EvPut (cacheKey day1) (compress testRuntime ?s) (10 * Minute)]
           = fetchTrace1"
    by code_simp
  show ?thesis
    using listBuildsBetween_put_failure [OF g p j w] w' unfolding t by blast
qed

text \<open>
  Claim C6. When the cache holds a readable payload for the key of the interval, a call
  of \<open>listBuildsBetween\<close> returns the builds decoded from the payload without error, and
  the only call it makes is the read of the cache: the service is not queried and
  nothing is written. Two calls that find the same payload therefore return identical
  results, whatever TTL they are given.
\<close>

theorem listBuildsBetween_cache_hit:
  assumes "Get (Cache b) tr (cacheKey interval) = Inr s"
    and "Get (Cache b) tr2 (cacheKey interval) = Inr s"
    and "decompress rt s = Some s1" and "json_Unmarshal rt s1 = Inr res"
  shows "listBuildsBetween b rt interval ttl tr
           = Some (Returns (res, None) (tr @ [EvGet (cacheKey interval)]))
         \<and> listBuildsBetween b rt interval ttl2 tr2
           = Some (Returns (res, None) (tr2 @ [EvGet (cacheKey interval)]))"
  using assms by (simp add: listBuildsBetween_def readFromCache_hit)

text \<open>
  Witness for C6: after the fetch of 1 January 2024 has filled the cache in memory, two
  further calls return the five builds and add one read each to the trace.
\<close>

theorem listBuildsBetween_cache_hit_witness:
  "listBuildsBetween testBuildkite testRuntime day1 (10 * Minute) fetchTrace1
     = Some (Returns ([testBuild 5, testBuild 11, testBuild 12, testBuild 13, testBuild 23], None)
         (fetchTrace1 @ [EvGet (cacheKey day1)]))
   \<and> listBuildsBetween testBuildkite testRuntime day1 (60 * 24 * Hour)
       (fetchTrace1 @ [EvGet (cacheKey day1)])
     = Some (Returns ([testBuild 5, testBuild 11, testBuild 12, testBuild 13, testBuild 23], None)
         ((fetchTrace1 @ [EvGet (cacheKey day1)]) @ [EvGet (cacheKey day1)]))"
proof -
  have g1: "Get (Cache testBuildkite) fetchTrace1 (cacheKey day1) = Inr [31, 5, 11, 12, 13, 23]"
    by code_simp
  have g2: "Get (Cache testBuildkite) (fetchTrace1 @ [EvGet (cacheKey day1)]) (cacheKey day1)
              = Inr [31, 5, 11, 12, 13, 23]"
    by code_simp
  have d: "decompress testRuntime [31, 5, 11, 12, 13, 23] = Some [5, 11, 12, 13, 23]"
    by code_simp
  have u: "json_Unmarshal testRuntime [5, 11, 12, 13, 23]
             = Inr [testBuild 5, testBuild 11, testBuild 12, testBuild 13, testBuild 23]"
    by code_simp
  show ?thesis
    using listBuildsBetween_cache_hit [OF g1 g2 d u, of "10 * Minute" "60 * 24 * Hour"] .
qed

section \<open>The build lister\<close>

lemma appendMatching_Some:
  "appendMatching from to pred bs res = Some res' \<longleftrightarrow>
     (\<forall>x \<in> set bs. inWindow from to x \<longrightarrow> pred x \<noteq> None)
     \<and> res' = res @ filter (\<lambda>x. inWindow from to x \<and> pred x = Some True) bs"
proof (induction bs arbitrary: res)
  case Nil
  show ?case by auto
next
  case (Cons x bs)
  show ?case
  proof (cases "inWindow from to x")
    case False
    then have "appendMatching from to pred (x # bs) res = appendMatching from to pred bs res"
      by (auto simp: inWindow_def)
    then show ?thesis using False Cons.IH by simp
  next
    case True
    then have w: "After (CreatedAt x) from" "Before (CreatedAt x) to" by (simp_all add: inWindow_def)
    show ?thesis
    proof (cases "pred x")
      case None
      then show ?thesis using w True by auto
    next
      case (Some v)
      then show ?thesis using w True Cons.IH by (cases v) auto
    qed
  qed
qed

lemma appendMatching_cong:
  assumes "\<forall>x. inWindow from to x \<longrightarrow> p x = q x"
  shows "appendMatching from to p bs res = appendMatching from to q bs res"
proof (induction bs arbitrary: res)
  case Nil
  show ?case by simp
next
  case (Cons x bs)
  show ?case
  proof (cases "inWindow from to x")
    case True
    then have "p x = q x" using assms by simp
    then show ?thesis using Cons.IH by (simp split: option.splits bool.splits)
  next
    case False
    then show ?thesis using Cons.IH by (auto simp: inWindow_def)
  qed
qed

lemma bucketLoop_cong:
  assumes "\<forall>x. inWindow from to x \<longrightarrow> p x = q x"
  shows "bucketLoop b rt from to p ivs res tr = bucketLoop b rt from to q ivs res tr"
proof (induction ivs arbitrary: res tr)
  case Nil
  show ?case by simp
next
  case (Cons iv ivs)
  show ?case
    by (simp add: appendMatching_cong [OF assms] Cons.IH
        split: prod.splits option.splits outcome.splits)
qed

text \<open>
  Claim C10. Two predicates that agree on every build created strictly inside the window
  \<open>(from, now)\<close>, \<open>now\<close> being the reading of the clock at the start of the call, give the
  same outcome of \<open>ListBuilds\<close>, whatever they do on other builds: return another answer
  or panic. The predicate is consulted only after both window checks have passed.
\<close>

theorem ListBuilds_predicate_outside_window:
  assumes "\<forall>x. After (CreatedAt x) from \<and> Before (CreatedAt x) (clock rt tr) \<longrightarrow> p x = q x"
  shows "ListBuilds b rt from p tr = ListBuilds b rt from q tr"
proof -
  have "\<forall>x. inWindow from (clock rt tr) x \<longrightarrow> p x = q x"
    using assms by (simp add: inWindow_def)
  then show ?thesis
    by (simp add: ListBuilds_def time_Now_def bucketLoop_cong)
qed

lemma fetchedBuckets_prefix:
  "fetchedBuckets b rt ivs acc tr =
     (case fetchedBuckets b rt ivs [] tr of
        None \<Rightarrow> None
      | Some Panics \<Rightarrow> Some Panics
      | Some (Returns (new, err) tr') \<Rightarrow> Some (Returns (acc @ new, err) tr'))"
proof (induction ivs arbitrary: acc tr)
  case Nil
  show ?case by simp
next
  case (Cons iv ivs)
  obtain ttl tr1 where c: "cacheTTL rt iv tr = (ttl, tr1)" by (cases "cacheTTL rt iv tr")
  show ?case
  proof (cases "listBuildsBetween b rt iv ttl tr1")
    case None
    then show ?thesis using c by simp
  next
    case (Some y)
    note lb = this
    show ?thesis
    proof (cases y)
      case Panics
      then show ?thesis using c lb by simp
    next
      case (Returns v tr2)
      obtain bs e where v: "v = (bs, e)" by (cases v)
      show ?thesis
      proof (cases e)
        case (Some err')
        then show ?thesis using c lb Returns v by simp
      next
        case None
        have l: "fetchedBuckets b rt (iv # ivs) a tr = fetchedBuckets b rt ivs (a @ bs) tr2" for a
          using c lb Returns v None by simp
        show ?thesis
          unfolding l
          by (subst Cons.IH [of "acc @ bs" tr2], subst Cons.IH [of "[] @ bs" tr2])
             (simp split: option.splits outcome.splits prod.splits)
      qed
    qed
  qed
qed

lemma fetchedBuckets_acc:
  "fetchedBuckets b rt ivs acc tr = Some (Returns (all, err) tr') \<longleftrightarrow>
     (\<exists>new. fetchedBuckets b rt ivs [] tr = Some (Returns (new, err) tr') \<and> all = acc @ new)"
  by (subst fetchedBuckets_prefix) (auto split: option.splits outcome.splits prod.splits)

lemma bucketLoop_fetched:
  "bucketLoop b rt from to pred ivs res tr = Some (Returns (res', err) tr') \<longleftrightarrow>
     (\<exists>new. fetchedBuckets b rt ivs [] tr = Some (Returns (new, err) tr')
        \<and> (\<forall>x \<in> set new. inWindow from to x \<longrightarrow> pred x \<noteq> None)
        \<and> res' = res @ filter (\<lambda>x. inWindow from to x \<and> pred x = Some True) new)"
proof (induction ivs arbitrary: res tr)
  case Nil
  show ?case by auto
next
  case (Cons iv ivs)
  let ?P = "\<lambda>x. inWindow from to x \<and> pred x = Some True"
  obtain ttl tr1 where c: "cacheTTL rt iv tr = (ttl, tr1)" by (cases "cacheTTL rt iv tr")
  show ?case
  proof (cases "listBuildsBetween b rt iv ttl tr1")
    case None
    then show ?thesis using c by simp
  next
    case (Some y)
    note lb = this
    show ?thesis
    proof (cases y)
      case Panics
      then show ?thesis using c lb by simp
    next
      case (Returns v tr2)
      obtain bs e where v: "v = (bs, e)" by (cases v)
      show ?thesis
      proof (cases e)
        case (Some err')
        then show ?thesis using c lb Returns v by auto
      next
        case None
        have f: "fetchedBuckets b rt (iv # ivs) [] tr = fetchedBuckets b rt ivs ([] @ bs) tr2"
          using c lb Returns v None by simp
        have fa: "fetchedBuckets b rt (iv # ivs) [] tr = Some (Returns (new, err) tr') \<longleftrightarrow>
            (\<exists>new2. fetchedBuckets b rt ivs [] tr2 = Some (Returns (new2, err) tr') \<and> new = bs @ new2)"
          for new
          unfolding f using fetchedBuckets_acc [of b rt ivs "[] @ bs" tr2 new err tr'] by simp
        show ?thesis
        proof (cases "appendMatching from to pred bs res")
          case None
          then have np: "\<not> (\<forall>x \<in> set bs. inWindow from to x \<longrightarrow> pred x \<noteq> None)"
            using appendMatching_Some [of "from" to pred bs res] by auto
          have "bucketLoop b rt from to pred (iv # ivs) res tr = Some Panics"
            using c lb Returns v \<open>e = None\<close> None by simp
          then show ?thesis using np unfolding fa by auto
        next
          case (Some res1)
          then have ok: "\<forall>x \<in> set bs. inWindow from to x \<longrightarrow> pred x \<noteq> None"
            and r1: "res1 = res @ filter ?P bs"
            using appendMatching_Some [of "from" to pred bs res res1] by auto
          have bl: "bucketLoop b rt from to pred (iv # ivs) res tr
                    = bucketLoop b rt from to pred ivs res1 tr2"
            using c lb Returns v \<open>e = None\<close> Some by simp
          have "bucketLoop b rt from to pred (iv # ivs) res tr = Some (Returns (res', err) tr')
                \<longleftrightarrow> (\<exists>new2. fetchedBuckets b rt ivs [] tr2 = Some (Returns (new2, err) tr')
                      \<and> (\<forall>x \<in> set new2. inWindow from to x \<longrightarrow> pred x \<noteq> None)
                      \<and> res' = res1 @ filter ?P new2)"
            unfolding bl by (rule Cons.IH)
          also have "\<dots> \<longleftrightarrow> (\<exists>new. fetchedBuckets b rt (iv # ivs) [] tr = Some (Returns (new, err) tr')
                      \<and> (\<forall>x \<in> set new. inWindow from to x \<longrightarrow> pred x \<noteq> None)
                      \<and> res' = res @ filter ?P new)" (is "?A = ?B")
          proof
            assume ?A
            then obtain new2 where
              n: "fetchedBuckets b rt ivs [] tr2 = Some (Returns (new2, err) tr')"
                 "\<forall>x \<in> set new2. inWindow from to x \<longrightarrow> pred x \<noteq> None"
                 "res' = res1 @ filter ?P new2"
              by blast
            have "fetchedBuckets b rt (iv # ivs) [] tr = Some (Returns (bs @ new2, err) tr')"
              unfolding fa using n(1) by simp
            moreover have "\<forall>x \<in> set (bs @ new2). inWindow from to x \<longrightarrow> pred x \<noteq> None"
              using ok n(2) by auto
            moreover have "res' = res @ filter ?P (bs @ new2)" unfolding n(3) r1 by simp
            ultimately show ?B by blast
          next
            assume ?B
            then obtain new where
              n: "fetchedBuckets b rt (iv # ivs) [] tr = Some (Returns (new, err) tr')"
                 "\<forall>x \<in> set new. inWindow from to x \<longrightarrow> pred x \<noteq> None"
                 "res' = res @ filter ?P new"
              by blast
            from n(1) [unfolded fa] obtain new2 where
              m: "fetchedBuckets b rt ivs [] tr2 = Some (Returns (new2, err) tr')" "new = bs @ new2"
              by blast
            have "\<forall>x \<in> set new2. inWindow from to x \<longrightarrow> pred x \<noteq> None"
              using n(2) m(2) by auto
            moreover have "res' = res1 @ filter ?P new2" unfolding n(3) m(2) r1 by simp
            ultimately show ?A using m(1) by blast
          qed
          finally show ?thesis .
        qed
      qed
    qed
  qed
qed



lemma bucketLoop_append:
  assumes "bucketLoop b rt from to pred pre res tr = Some (Returns (res1, None) tr1)"
  shows "bucketLoop b rt from to pred (pre @ rest) res tr
         = bucketLoop b rt from to pred rest res1 tr1"
  using assms
proof (induction pre arbitrary: res tr)
  case Nil
  then show ?case by simp
next
  case (Cons iv pre)
  obtain ttl tr2 where c: "cacheTTL rt iv tr = (ttl, tr2)" by (cases "cacheTTL rt iv tr")
  from Cons.prems c obtain bs tr3 res2 where
    l: "listBuildsBetween b rt iv ttl tr2 = Some (Returns (bs, None) tr3)"
    and a: "appendMatching from to pred bs res = Some res2"
    and r: "bucketLoop b rt from to pred pre res2 tr3 = Some (Returns (res1, None) tr1)"
    by (auto split: option.splits outcome.splits if_splits)
  show ?case using c l a Cons.IH [OF r] by simp
qed

text \<open>
  What \<open>ListBuilds\<close> does with the builds of the buckets it fetches. It reads the clock
  once, at the start; call the reading \<open>now\<close>. It returns a list of builds (with or
  without an error) exactly when the fetch of the daily buckets returns and the predicate
  answers on every fetched build inside the window, and the list is then the fetched
  builds, in their order, that were created strictly after \<open>from\<close> and strictly before
  \<open>now\<close> and on which the predicate is true. When the midnight at which the buckets
  start is not after \<open>from\<close>, every instant of the window lies in one of the buckets.
\<close>

lemma ListBuilds_filters_fetched:
  "(ListBuilds b rt from pred tr = Some (Returns (res, err) tr') \<longleftrightarrow>
      (\<exists>all. fetchedBuckets b rt (generateDailyIntervals (Local rt) from (clock rt tr)) []
                (tr @ [EvNow]) = Some (Returns (all, err) tr')
          \<and> (\<forall>x \<in> set all. inWindow from (clock rt tr) x \<longrightarrow> pred x \<noteq> None)
          \<and> res = filter (\<lambda>x. inWindow from (clock rt tr) x \<and> pred x = Some True) all))
   \<and> (ListBuilds b rt from pred tr = Some (Returns (res, err) tr') \<longrightarrow>
        (\<forall>x \<in> set res. ns from < ns (CreatedAt x) \<and> ns (CreatedAt x) < ns (clock rt tr)
            \<and> pred x = Some True))
   \<and> (ns (localMidnight (Local rt) from) \<le> ns from \<longrightarrow>
        (\<forall>t. After t from \<and> Before t (clock rt tr) \<longrightarrow>
           (\<exists>iv \<in> set (generateDailyIntervals (Local rt) from (clock rt tr)).
               ns (From iv) \<le> ns t \<and> Before t (To iv))))"
proof -
  let ?now = "clock rt tr"
  let ?ivs = "generateDailyIntervals (Local rt) from ?now"
  let ?P = "\<lambda>x. inWindow from ?now x \<and> pred x = Some True"
  have e: "ListBuilds b rt from pred tr = bucketLoop b rt from ?now pred ?ivs [] (tr @ [EvNow])"
    by (simp add: ListBuilds_def time_Now_def)
  have a: "ListBuilds b rt from pred tr = Some (Returns (res, err) tr') \<longleftrightarrow>
      (\<exists>all. fetchedBuckets b rt ?ivs [] (tr @ [EvNow]) = Some (Returns (all, err) tr')
          \<and> (\<forall>x \<in> set all. inWindow from ?now x \<longrightarrow> pred x \<noteq> None)
          \<and> res = filter ?P all)"
    unfolding e bucketLoop_fetched by simp
  have b: "\<forall>x \<in> set res. ns from < ns (CreatedAt x) \<and> ns (CreatedAt x) < ns ?now
            \<and> pred x = Some True"
    if "ListBuilds b rt from pred tr = Some (Returns (res, err) tr')"
  proof -
    from that [unfolded a] obtain all where "res = filter ?P all" by blast
    then show ?thesis by (auto simp: inWindow_def After_def Before_def)
  qed
  have c: "\<exists>iv \<in> set ?ivs. ns (From iv) \<le> ns t \<and> Before t (To iv)"
    if z: "ns (localMidnight (Local rt) from) \<le> ns from" and w: "After t from \<and> Before t ?now" for t
  proof -
    have "ns (localMidnight (Local rt) from) \<le> ns t"
      using z w unfolding After_def by linarith
    then show ?thesis using w by (intro generateDailyIntervals_cover) simp_all
  qed
  show ?thesis using a b c by blast
qed

text \<open>
  An instance: a listing from 10:00 on 1 January 2024 at 09:00 on 4 January 2024 with
  the predicate that rejects build 12. The bucket of 1 January holds builds created at
  05:00, 11:00, 12:00, 13:00 and 23:00; the builds of 11:00, 13:00 and 23:00 are returned.
\<close>

lemma ListBuilds_filters_fetched_instance:
  "\<exists>tr'. fetchedBuckets testBuildkite testRuntime
            (generateDailyIntervals (Local testRuntime) (testTime 10) (clock testRuntime [])) []
            ([] @ [EvNow])
          = Some (Returns ([testBuild 5, testBuild 11, testBuild 12, testBuild 13, testBuild 23],
                           None) tr')
     \<and> ListBuilds testBuildkite testRuntime (testTime 10) not12 []
          = Some (Returns ([testBuild 11, testBuild 13, testBuild 23], None) tr')"
proof -
  let ?all = "[testBuild 5, testBuild 11, testBuild 12, testBuild 13, testBuild 23]"
  let ?now = "clock testRuntime []"
  let ?f = "fetchedBuckets testBuildkite testRuntime
            (generateDailyIntervals (Local testRuntime) (testTime 10) ?now) [] ([] @ [EvNow])"
  define tr' where "tr' = traceOf ?f"
  have f: "?f = Some (Returns (?all, None) tr')"
    unfolding tr'_def by code_simp
  have p: "\<forall>x \<in> set ?all. inWindow (testTime 10) ?now x \<longrightarrow> not12 x \<noteq> None"
    by (simp add: not12_def)
  have r: "[testBuild 11, testBuild 13, testBuild 23]
           = filter (\<lambda>x. inWindow (testTime 10) ?now x \<and> not12 x = Some True) ?all"
    by code_simp
  note inst = ListBuilds_filters_fetched [of testBuildkite testRuntime "testTime 10" not12 "[]"
        "[testBuild 11, testBuild 13, testBuild 23]" None tr']
  have "ListBuilds testBuildkite testRuntime (testTime 10) not12 []
          = Some (Returns ([testBuild 11, testBuild 13, testBuild 23], None) tr')"
    using inst [THEN conjunct1, THEN iffD2] f p r by blast
  then show ?thesis using f by blast
qed

text \<open>
  Claim C1 says that \<open>ListBuilds\<close> returns exactly the builds created strictly between
  \<open>from\<close> and \<open>now\<close> on which the predicate is true, for every instant \<open>from\<close>. The code
  does not, at a \<open>from\<close> whose location is not the local zone. The instant
  2024-01-01T22:30:00Z is given as 2024-01-02T00:30:00+02:00, the local zone is UTC and
  the clock shows 09:00 on 4 January 2024. \<open>generateDailyIntervals\<close> takes the calendar
  date of \<open>from\<close> in the location of \<open>from\<close>, 2 January, and its midnight in the local
  zone, 2024-01-02T00:00:00Z, which is after \<open>from\<close>: the buckets are those of 2, 3 and 4
  January. The service holds a passed build created at 2024-01-01T23:00:00Z, inside the
  window; the predicate accepts every build; the build is not returned. The note in
  \<^verbatim>\<open>ListBuilds\<close> that the daily intervals are a superset of the window does not hold
  here. The same instant given in UTC makes the buckets start on 1 January, and the
  build is returned.
\<close>

theorem ListBuilds_misses_build_in_window:
  "Local testRuntime = 0 \<and> zone fromEast = 7200 \<and> ns fromEastUTC = ns fromEast
   \<and> civil fromEast = (2024, 1, 2)
   \<and> generateDailyIntervals (Local testRuntime) fromEast (clock testRuntime [])
       = [day2, day3, day4]
   \<and> Before fromEast (From day2)
   \<and> testRecord 23 \<in> set (fst (ListByOrg (Client testBuildkite) [] (Org testBuildkite)
                                  ((listOptions day1)\<lparr>Page := 3\<rparr>)))
   \<and> newBuildFromBuildkite (testRecord 23) = Some (testBuild 23)
   \<and> inWindow fromEast (clock testRuntime []) (testBuild 23)
   \<and> always (testBuild 23) = Some True
   \<and> ListBuilds testBuildkite testRuntime fromEast always []
       = Some (Returns ([], None)
           (traceOf (ListBuilds testBuildkite testRuntime fromEast always [])))
   \<and> ListBuilds testBuildkite testRuntime fromEastUTC always []
       = Some (Returns ([testBuild 23], None)
           (traceOf (ListBuilds testBuildkite testRuntime fromEastUTC always [])))"
proof -
  have a: "Local testRuntime = 0 \<and> zone fromEast = 7200 \<and> ns fromEastUTC = ns fromEast"
    by code_simp
  have b: "civil fromEast = (2024, 1, 2)" by code_simp
  have c: "generateDailyIntervals (Local testRuntime) fromEast (clock testRuntime [])
       = [day2, day3, day4]"
    by code_simp
  have d: "Before fromEast (From day2)" by code_simp
  have e: "testRecord 23 \<in> set (fst (ListByOrg (Client testBuildkite) [] (Org testBuildkite)
                                  ((listOptions day1)\<lparr>Page := 3\<rparr>)))"
    by code_simp
  have f: "newBuildFromBuildkite (testRecord 23) = Some (testBuild 23)" by code_simp
  have g: "inWindow fromEast (clock testRuntime []) (testBuild 23)" by code_simp
  have h: "always (testBuild 23) = Some True" by code_simp
  have i: "ListBuilds testBuildkite testRuntime fromEast always []
       = Some (Returns ([], None)
           (traceOf (ListBuilds testBuildkite testRuntime fromEast always [])))"
    by code_simp
  have j: "ListBuilds testBuildkite testRuntime fromEastUTC always []
       = Some (Returns ([testBuild 23], None)
           (traceOf (ListBuilds testBuildkite testRuntime fromEastUTC always [])))"
    by code_simp
  show ?thesis using a b c d e f g h i j by blast
qed

text \<open>
  Claim C5. When the buckets before some bucket have been fetched without error and the
  fetch of that bucket returns an error, \<open>ListBuilds\<close> returns that error together with
  the builds kept from the buckets before it, and its trace ends with the failed fetch:
  nothing is done for the buckets after it, whatever they are.
\<close>

theorem ListBuilds_error_aborts:
  assumes "generateDailyIntervals (Local rt) from (clock rt tr) = pre @ interval # post"
    and "fetchedBuckets b rt pre [] (tr @ [EvNow]) = Some (Returns (all, None) tr1)"
    and "\<forall>x \<in> set all. inWindow from (clock rt tr) x \<longrightarrow> pred x \<noteq> None"
    and "cacheTTL rt interval tr1 = (ttl, tr2)"
    and "listBuildsBetween b rt interval ttl tr2 = Some (Returns (bs, Some e) tr3)"
  shows "ListBuilds b rt from pred tr =
           Some (Returns (filter (\<lambda>x. inWindow from (clock rt tr) x \<and> pred x = Some True) all,
                          Some e) tr3)"
proof -
  let ?now = "clock rt tr"
  let ?P = "\<lambda>x. inWindow from ?now x \<and> pred x = Some True"
  have p: "bucketLoop b rt from ?now pred pre [] (tr @ [EvNow])
           = Some (Returns (filter ?P all, None) tr1)"
    unfolding bucketLoop_fetched using assms(2,3) by simp
  have "ListBuilds b rt from pred tr
        = bucketLoop b rt from ?now pred (pre @ interval # post) [] (tr @ [EvNow])"
    by (simp add: ListBuilds_def time_Now_def assms(1))
  also have "\<dots> = bucketLoop b rt from ?now pred (interval # post) (filter ?P all) tr1"
    by (rule bucketLoop_append [OF p])
  also have "\<dots> = Some (Returns (filter ?P all, Some e) tr3)"
    using assms(4,5) by simp
  finally show ?thesis .
qed

text \<open>
  Witness for C5: the same listing with the service out of order for 2 January 2024. The
  builds kept from 1 January are returned with the error, and the cache is not even read
  for 3 January.
\<close>

theorem ListBuilds_error_aborts_witness:
  "\<exists>tr3. ListBuilds (testBuildkite\<lparr>Client := failingClient\<rparr>) testRuntime (testTime 10) not12 []
            = Some (Returns ([testBuild 11, testBuild 13, testBuild 23],
                             Some ''503 Service Unavailable'') tr3)
     \<and> EvGet (cacheKey day2) \<in> set tr3 \<and> EvGet (cacheKey day3) \<notin> set tr3"
proof -
  let ?b = "testBuildkite\<lparr>Client := failingClient\<rparr>"
  let ?all = "[testBuild 5, testBuild 11, testBuild 12, testBuild 13, testBuild 23]"
  let ?now = "clock testRuntime []"
  have i: "generateDailyIntervals (Local testRuntime) (testTime 10) ?now
           = [day1] @ day2 # [day3, day4]"
    by code_simp
  define tr1 where "tr1 = traceOf (fetchedBuckets ?b testRuntime [day1] [] ([] @ [EvNow]))"
  define tr3 where "tr3 = traceOf (listBuildsBetween ?b testRuntime day2
      (fst (cacheTTL testRuntime day2 tr1)) (snd (cacheTTL testRuntime day2 tr1)))"
  have f: "fetchedBuckets ?b testRuntime [day1] [] ([] @ [EvNow]) = Some (Returns (?all, None) tr1)"
    unfolding tr1_def by code_simp
  have l: "listBuildsBetween ?b testRuntime day2 (fst (cacheTTL testRuntime day2 tr1))
              (snd (cacheTTL testRuntime day2 tr1))
            = Some (Returns ([], Some ''503 Service Unavailable'') tr3)"
    unfolding tr3_def tr1_def by code_simp
  have n: "EvGet (cacheKey day2) \<in> set tr3" "EvGet (cacheKey day3) \<notin> set tr3"
    unfolding tr3_def tr1_def by code_simp+
  have c: "cacheTTL testRuntime day2 tr1
           = (fst (cacheTTL testRuntime day2 tr1), snd (cacheTTL testRuntime day2 tr1))"
    by simp
  have p: "\<forall>x \<in> set ?all. inWindow (testTime 10) ?now x \<longrightarrow> not12 x \<noteq> None"
    by (simp add: not12_def)
  have r: "filter (\<lambda>x. inWindow (testTime 10) ?now x \<and> not12 x = Some True) ?all
           = [testBuild 11, testBuild 13, testBuild 23]"
    by code_simp
  show ?thesis
    using ListBuilds_error_aborts [OF i f p c l] n unfolding r by blast
qed

text \<open>
  Witness for C10: the predicate that panics outside the window gives the same outcome as
  the one that does not, although the bucket of 1 January 2024 holds a build, created at
  05:00, on which it would panic.
\<close>

theorem ListBuilds_predicate_outside_window_witness:
  "ListBuilds testBuildkite testRuntime (testTime 10) not12 []
     = ListBuilds testBuildkite testRuntime (testTime 10) not12Strict []
   \<and> not12Strict (testBuild 5) = None \<and> not12 (testBuild 5) = Some True"
proof -
  have h: "\<forall>x. After (CreatedAt x) (testTime 10) \<and> Before (CreatedAt x) (clock testRuntime [])
             \<longrightarrow> not12 x = not12Strict x"
    by (simp add: not12_def not12Strict_def After_def Before_def testRuntime_def Add_def)
  have a: "not12Strict (testBuild 5) = None" by code_simp
  have b: "not12 (testBuild 5) = Some True" by code_simp
  show ?thesis
    using ListBuilds_predicate_outside_window [OF h, of testBuildkite] a b by blast
qed

end
